theory Spec2Isabelle
  imports Complex_Main "HOL-Library.Word" "HOL-Library.Stream"
begin

section \<open>Values, exceptions and the random source\<close>

text \<open>
  The simulator is a single-threaded JavaScript program. Objects that the source mutates in
  place (frames, page-table entries, processes, the kernel) are modelled by explicit state
  passing. A thrown value is the left summand of a result; the state that comes with it is
  the state at the point of the throw.

  Three kinds of values are thrown: the repository's own \<^verbatim>\<open>Exception.PageFault(pid, page)\<close>,
  the runtime's \<^verbatim>\<open>TypeError\<close> (a property read or write on \<^verbatim>\<open>undefined\<close>), and the
  \<^verbatim>\<open>AssertionError\<close> of \<^verbatim>\<open>node:assert\<close>.
\<close>

type_synonym pid = nat

datatype thrown = PageFault pid nat | TypeError | AssertionError

text \<open>
  \<^verbatim>\<open>Math.random()\<close> is the only source of randomness. It is modelled as an injected stream
  of 53-bit draws; the draw \<open>d\<close> stands for the double \<open>unat d / 2^53\<close> of \<open>[0, 1)\<close>.

  The product \<^verbatim>\<open>Math.random() * n\<close> is a product of doubles: the exact product
  \<open>unat d * n / 2^53\<close> rounded to 53 significant bits, to the nearest such number and to the
  one with an even last bit on a tie. With \<open>p = unat d * n\<close> a number of \<open>b\<close> bits, that is
  \<open>p\<close> rounded to a multiple of \<open>2^(b - 53)\<close>. The integers \<open>n\<close> of the program (at most
  9000) and the sums \<^verbatim>\<open>Math.floor(...) + min\<close> are exact as doubles.
\<close>

type_synonym draw = "53 word"
type_synonym rng = "draw stream"

definition unit_value :: "draw \<Rightarrow> rat" where
  "unit_value d = of_nat (unat d) / 2 ^ 53"

fun bit_length :: "nat \<Rightarrow> nat" where
  "bit_length n = (if n = 0 then 0 else Suc (bit_length (n div 2)))"

definition round_even :: "nat \<Rightarrow> nat \<Rightarrow> nat" where
  \<comment> \<open>the multiple of \<open>2^e\<close> nearest to \<open>p\<close>, the even one on a tie\<close>
  "round_even e p =
     (let q = p div 2 ^ e; r = p mod 2 ^ e in
      if 2 ^ e < 2 * r \<or> (2 * r = 2 ^ e \<and> odd q) then (q + 1) * 2 ^ e else q * 2 ^ e)"

definition times_double :: "draw \<Rightarrow> nat \<Rightarrow> nat" where
  \<comment> \<open>the double \<^verbatim>\<open>Math.random() * n\<close>, as a numerator over \<open>2^53\<close>\<close>
  "times_double d n = (let p = unat d * n in round_even (bit_length p - 53) p)"

definition floor_times :: "draw \<Rightarrow> nat \<Rightarrow> nat" where
  \<comment> \<open>\<^verbatim>\<open>Math.floor(Math.random() * n)\<close>\<close>
  "floor_times d n = times_double d n div 2 ^ 53"

definition rand_num :: "nat \<Rightarrow> nat \<Rightarrow> draw \<Rightarrow> nat" where
  \<comment> \<open>\<^verbatim>\<open>Math.floor(Math.random() * (max - min + 1)) + min\<close>\<close>
  "rand_num lo hi d = floor_times d (hi - lo + 1) + lo"

definition rand :: "nat \<Rightarrow> nat \<Rightarrow> rng \<Rightarrow> nat \<times> rng" where
  \<comment> \<open>\<^verbatim>\<open>rand({min, max})\<close> without \<^verbatim>\<open>unique\<close>: the body of the do-while runs once\<close>
  "rand lo hi rs = (rand_num lo hi (shd rs), stl rs)"

partial_function (option) rand_unique ::
  "nat \<Rightarrow> nat \<Rightarrow> (nat \<Rightarrow> bool) \<Rightarrow> rng \<Rightarrow> (nat \<times> rng) option" where
  \<comment> \<open>\<^verbatim>\<open>rand({min, max, unique})\<close>: redraw while \<^verbatim>\<open>unique(num)\<close> is truthy\<close>
  "rand_unique lo hi unique rs =
     (let num = rand_num lo hi (shd rs) in
      if unique num then rand_unique lo hi unique (stl rs) else Some (num, stl rs))"

definition roll :: "rat \<Rightarrow> rng \<Rightarrow> bool \<times> rng" where
  \<comment> \<open>\<^verbatim>\<open>Math.random() < threshold\<close>\<close>
  "roll threshold rs = (unit_value (shd rs) < threshold, stl rs)"

text \<open>
  The thresholds of the program are written in decimal; each denotes the double nearest to
  it. These are the values of the four literals.
\<close>

definition double_0_20 :: rat where
  "double_0_20 = 3602879701896397 / 2 ^ 54"

definition double_0_45 :: rat where
  "double_0_45 = 8106479329266893 / 2 ^ 54"

definition double_0_5 :: rat where
  "double_0_5 = 1 / 2"

definition double_0_9 :: rat where
  "double_0_9 = 8106479329266893 / 2 ^ 53"

definition choose_arr :: "'a list \<Rightarrow> rng \<Rightarrow> 'a option \<times> rng" where
  \<comment> \<open>\<^verbatim>\<open>choose(arr) = arr[Math.floor(Math.random() * arr.length)]\<close>; \<open>None\<close> is \<^verbatim>\<open>undefined\<close>\<close>
  "choose_arr arr rs =
     (let i = floor_times (shd rs) (length arr) in
      (if i < length arr then Some (arr ! i) else None, stl rs))"

section \<open>Page-table entries, frames and the MMU\<close>

text \<open>
  The constructor of \<^verbatim>\<open>PageTableEntry\<close> sets \<^verbatim>\<open>presented\<close>, \<^verbatim>\<open>referenced\<close>, \<^verbatim>\<open>modified\<close> and
  \<^verbatim>\<open>fid\<close>. The kernel never touches \<^verbatim>\<open>fid\<close>: it stores the frame id in a property
  \<^verbatim>\<open>frame\<close>, which does not exist (reads as \<^verbatim>\<open>undefined\<close>, here \<open>None\<close>) until the first
  page fault on the entry.
\<close>

record PageTableEntry =
  presented :: bool
  referenced :: bool
  modified :: bool
  pte_fid :: nat
  frame :: "nat option"

definition new_PageTableEntry :: PageTableEntry where
  "new_PageTableEntry =
     \<lparr>presented = False, referenced = False, modified = False, pte_fid = 0, frame = None\<rparr>"

record Frame =
  fid :: nat
  busy :: bool
  frame_pid :: pid
  frame_page :: nat

definition new_Frame :: "nat \<Rightarrow> Frame" where
  "new_Frame f = \<lparr>fid = f, busy = False, frame_pid = 0, frame_page = 0\<rparr>"

text \<open>
  \<^verbatim>\<open>#busyTable\<close> is a JavaScript \<^verbatim>\<open>Set\<close>, whose iteration order is insertion order: a list
  without repetition, with \<^verbatim>\<open>add\<close> appending a new element. \<^verbatim>\<open>#freeTable\<close> is an array
  used as a stack (\<^verbatim>\<open>pop\<close> and \<^verbatim>\<open>push\<close> at the end).
\<close>

record MMU =
  frameTable :: "Frame list"
  busyTable :: "nat list"
  freeTable :: "nat list"

definition Set_add :: "nat \<Rightarrow> nat list \<Rightarrow> nat list" where
  "Set_add x xs = (if x \<in> set xs then xs else xs @ [x])"

definition Set_delete :: "nat \<Rightarrow> nat list \<Rightarrow> nat list" where
  "Set_delete x xs = removeAll x xs"

definition new_MMU :: "rng \<Rightarrow> MMU \<times> rng" where
  "new_MMU rs =
     (let (n, rs') = rand 512 1024 rs in
      (\<lparr>frameTable = map new_Frame [0..<n], busyTable = [], freeTable = [0..<n]\<rparr>, rs'))"

definition MMU_get :: "MMU \<Rightarrow> nat \<Rightarrow> Frame option" where
  \<comment> \<open>\<^verbatim>\<open>this.#frameTable[fid]\<close>, \<^verbatim>\<open>undefined\<close> outside the table\<close>
  "MMU_get m f = (if f < length (frameTable m) then Some (frameTable m ! f) else None)"

definition MMU_alloc :: "pid \<Rightarrow> nat \<Rightarrow> MMU \<Rightarrow> (thrown + int) \<times> MMU" where
  "MMU_alloc p pg m =
     (if freeTable m = [] then (Inr (- 1), m)
      else
        let f = last (freeTable m);
            m1 = m\<lparr>freeTable := butlast (freeTable m)\<rparr>
        in case MMU_get m1 f of
             None \<Rightarrow> (Inl TypeError, m1)
           | Some fr \<Rightarrow>
               (Inr (int f),
                m1\<lparr>frameTable :=
                      (frameTable m1)[f := fr\<lparr>busy := True, frame_pid := p, frame_page := pg\<rparr>],
                    busyTable := Set_add f (busyTable m1)\<rparr>))"

definition MMU_free :: "nat \<Rightarrow> MMU \<Rightarrow> (thrown + bool) \<times> MMU" where
  "MMU_free f m =
     (if f \<notin> set (busyTable m) then (Inr False, m)
      else case MMU_get m f of
             None \<Rightarrow> (Inl TypeError, m)
           | Some fr \<Rightarrow>
               (Inr True,
                m\<lparr>frameTable :=
                     (frameTable m)[f := fr\<lparr>busy := False, frame_pid := 0, frame_page := 0\<rparr>],
                   busyTable := Set_delete f (busyTable m),
                   freeTable := freeTable m @ [f]\<rparr>))"

definition MMU_realloc :: "nat \<Rightarrow> pid \<Rightarrow> nat \<Rightarrow> MMU \<Rightarrow> (thrown + bool) \<times> MMU" where
  "MMU_realloc f p pg m =
     (case MMU_get m f of
        None \<Rightarrow> (Inl TypeError, m)
      | Some fr \<Rightarrow>
          (Inr True,
           m\<lparr>frameTable :=
                (frameTable m)[f := fr\<lparr>busy := True, frame_pid := p, frame_page := pg\<rparr>]\<rparr>))"

text \<open>
  \<^verbatim>\<open>access\<close> mutates an entry of the page table it is given and nothing of the MMU itself;
  the MMU is threaded through so that this can be stated. The page argument is \<open>None\<close>
  when the caller passes \<^verbatim>\<open>undefined\<close>; then, and for an index outside the table,
  \<^verbatim>\<open>pageTable[page]\<close> is \<^verbatim>\<open>undefined\<close> and reading \<^verbatim>\<open>pte.presented\<close> throws a TypeError.
\<close>

definition MMU_access ::
  "pid \<Rightarrow> PageTableEntry list \<Rightarrow> nat option \<Rightarrow> bool \<Rightarrow> MMU
     \<Rightarrow> (thrown + unit) \<times> PageTableEntry list \<times> MMU" where
  "MMU_access p pt pg modify m =
     (case pg of
        None \<Rightarrow> (Inl TypeError, pt, m)
      | Some i \<Rightarrow>
          if length pt \<le> i then (Inl TypeError, pt, m)
          else
            let pte = pt ! i in
            if \<not> presented pte then (Inl (PageFault p i), pt, m)
            else
              let pte1 = pte\<lparr>referenced := True\<rparr>;
                  pte2 = (if modify then pte1\<lparr>modified := True\<rparr> else pte1)
              in (Inr (), pt[i := pte2], m))"

section \<open>Processes\<close>

record Process =
  pid :: pid
  pageTable :: "PageTableEntry list"
  ttl :: nat
  idleSet :: "nat list"
  workingSet :: "nat list"
  workingSetTtl :: nat
  counter :: nat

text \<open>
  The loop of \<^verbatim>\<open>#rotate\<close> over the page indices: one \<^verbatim>\<open>roll({threshold: 0.20})\<close> per
  page, the page pushed on the working set when the roll succeeds and on the idle set
  otherwise.
\<close>

fun rotate_loop :: "nat list \<Rightarrow> nat list \<Rightarrow> nat list \<Rightarrow> rng \<Rightarrow> nat list \<times> nat list \<times> rng" where
  "rotate_loop [] working idle rs = (working, idle, rs)"
| "rotate_loop (page # pages) working idle rs =
     (let (b, rs') = roll double_0_20 rs in
      if b then rotate_loop pages (working @ [page]) idle rs'
      else rotate_loop pages working (idle @ [page]) rs')"

definition Process_rotate :: "Process \<Rightarrow> rng \<Rightarrow> Process \<times> rng" where
  "Process_rotate this rs =
     (let (n, rs1) = rand 128 256 rs;
          (working, idle, rs2) = rotate_loop [0..<length (pageTable this)] [] [] rs1
      in (this\<lparr>workingSetTtl := workingSetTtl this + n, workingSet := working, idleSet := idle\<rparr>,
          rs2))"

definition new_Process :: "pid \<Rightarrow> rng \<Rightarrow> Process \<times> rng" where
  "new_Process p rs =
     (let (len, rs1) = rand 32 64 rs;
          (t, rs2) = rand 1024 2048 rs1
      in Process_rotate
           \<lparr>pid = p, pageTable = replicate len new_PageTableEntry, ttl = t, idleSet = [],
            workingSet = [], workingSetTtl = 0, counter = 0\<rparr> rs2)"

section \<open>The kernel\<close>

text \<open>
  \<^verbatim>\<open>#processes\<close> is a JavaScript \<^verbatim>\<open>Map\<close> from pid to the process object: an association
  list in insertion order. \<^verbatim>\<open>get\<close> is \<^const>\<open>map_of\<close>; \<^verbatim>\<open>set\<close> replaces the value of an
  existing key in place and appends a new key; an object reached through \<^verbatim>\<open>get\<close> and
  mutated in place is written back with \<open>Map_modify\<close>.
\<close>

fun Map_set :: "nat \<Rightarrow> 'v \<Rightarrow> (nat \<times> 'v) list \<Rightarrow> (nat \<times> 'v) list" where
  "Map_set k v [] = [(k, v)]"
| "Map_set k v (e # es) = (if fst e = k then (k, v) # es else e # Map_set k v es)"

fun Map_modify :: "nat \<Rightarrow> ('v \<Rightarrow> 'v) \<Rightarrow> (nat \<times> 'v) list \<Rightarrow> (nat \<times> 'v) list" where
  "Map_modify k f [] = []"
| "Map_modify k f (e # es) = (if fst e = k then (k, f (snd e)) # es else e # Map_modify k f es)"

definition Map_delete :: "nat \<Rightarrow> (nat \<times> 'v) list \<Rightarrow> (nat \<times> 'v) list" where
  "Map_delete k es = filter (\<lambda>e. fst e \<noteq> k) es"

definition Map_has :: "(nat \<times> 'v) list \<Rightarrow> nat \<Rightarrow> bool" where
  "Map_has es k = (map_of es k \<noteq> None)"

text \<open>
  The clock replacer keeps its hand in \<^verbatim>\<open>#hand\<close>; \<open>None\<close> is the value \<^verbatim>\<open>NaN\<close> that
  \<^verbatim>\<open>(hand + 1) % 0\<close> leaves there when the busy table is empty.

  \<^verbatim>\<open>#replacer\<close> holds what \<^verbatim>\<open>new Replacer(this)\<close> returns. For the two classes of the program
  that is a clock or a random replacer. When \<^verbatim>\<open>Replacer\<close> is the function \<^verbatim>\<open>Object\<close> it is the
  kernel object itself (\<^verbatim>\<open>new Object(value)\<close> returns an object \<^verbatim>\<open>value\<close> as it is), which has
  no method \<^verbatim>\<open>replace\<close>.
\<close>

datatype Replacer = ClockReplacer "nat option" | RandomReplacer | KernelItself

record AccessStats =
  total :: nat
  faults :: nat
  replaced :: nat

record Kernel =
  replacer :: Replacer
  processes :: "(pid \<times> Process) list"
  mmu :: MMU
  accessStats :: AccessStats
  random :: rng

definition MAX_PROCESS_COUNT :: nat where
  "MAX_PROCESS_COUNT = 25"

datatype Syscall = AccessMemory pid "nat option" bool | Exit pid

text \<open>
  A page-table entry object is addressed by the pid of its process and its index in that
  process's page table. \<open>pte_at\<close> reads it (\<open>None\<close> when \<^verbatim>\<open>pageTable[page]\<close> is
  \<^verbatim>\<open>undefined\<close>), \<open>update_pte\<close> mutates it in place.
\<close>

definition pte_at :: "Kernel \<Rightarrow> pid \<times> nat \<Rightarrow> PageTableEntry option" where
  "pte_at k r =
     (case map_of (processes k) (fst r) of
        None \<Rightarrow> None
      | Some process \<Rightarrow>
          if snd r < length (pageTable process) then Some (pageTable process ! snd r) else None)"

definition update_pte ::
  "pid \<times> nat \<Rightarrow> (PageTableEntry \<Rightarrow> PageTableEntry) \<Rightarrow> Kernel \<Rightarrow> Kernel" where
  "update_pte r f k =
     k\<lparr>processes :=
         Map_modify (fst r)
           (\<lambda>process. process\<lparr>pageTable := (pageTable process)[snd r := f (pageTable process ! snd r)]\<rparr>)
           (processes k)\<rparr>"

subsection \<open>Replacement policies\<close>

definition referenced_count :: "(pid \<times> Process) list \<Rightarrow> nat" where
  "referenced_count ps = sum_list (map (\<lambda>e. length (filter referenced (pageTable (snd e)))) ps)"

lemma filter_count_clear:
  "i < length xs \<Longrightarrow> P (xs ! i) \<Longrightarrow> \<not> P y \<Longrightarrow>
   length (filter P (xs[i := y])) < length (filter P xs)"
proof (induction xs arbitrary: i)
  case Nil
  then show ?case by simp
next
  case (Cons x xs)
  then show ?case by (cases i) auto
qed

lemma referenced_count_clear:
  assumes "map_of ps p = Some process"
    and "i < length (pageTable process)"
    and "referenced (pageTable process ! i)"
  shows "referenced_count
           (Map_modify p
              (\<lambda>pr. pr\<lparr>pageTable := (pageTable pr)[i := (pageTable pr ! i)\<lparr>referenced := False\<rparr>]\<rparr>) ps)
         < referenced_count ps"
  using assms
proof (induction ps)
  case Nil
  then show ?case by simp
next
  case (Cons e es)
  show ?case
  proof (cases "fst e = p")
    case True
    with Cons.prems have "snd e = process" by (cases e) simp
    with True Cons.prems show ?thesis
      by (simp add: referenced_count_def filter_count_clear)
  next
    case False
    with Cons show ?thesis by (cases e) (simp add: referenced_count_def)
  qed
qed

text \<open>
  The loop of \<^verbatim>\<open>ClockReplacer.replace\<close>, started with the snapshot \<open>bt\<close> of the busy table
  and the clamped hand \<open>h\<close>. Besides the result (the address of the returned entry, or the
  thrown value) and the kernel, it returns the log of its inspections: the address of each
  entry whose \<^verbatim>\<open>referenced\<close> bit an iteration has read, with the bit it found. The log is
  not a value of the program; its length is the number of iterations that reached the
  test of the bit.
\<close>

function clock_loop ::
  "nat list \<Rightarrow> nat \<Rightarrow> Kernel \<Rightarrow> (thrown + pid \<times> nat) \<times> Kernel \<times> ((pid \<times> nat) \<times> bool) list" where
  "clock_loop bt h k =
     (let k1 = k\<lparr>replacer :=
                   ClockReplacer (if bt = [] then None else Some ((h + 1) mod length bt))\<rparr>
      in if length bt \<le> h then (Inl TypeError, k1, [])
         else
           case MMU_get (mmu k1) (bt ! h) of
             None \<Rightarrow> (Inl TypeError, k1, [])
           | Some fr \<Rightarrow>
               (case map_of (processes k1) (frame_pid fr) of
                  None \<Rightarrow> (Inl TypeError, k1, [])
                | Some process \<Rightarrow>
                    if length (pageTable process) \<le> frame_page fr then (Inl TypeError, k1, [])
                    else if \<not> referenced (pageTable process ! frame_page fr)
                    then (Inr (frame_pid fr, frame_page fr), k1,
                          [((frame_pid fr, frame_page fr), False)])
                    else
                      (case clock_loop bt ((h + 1) mod length bt)
                              (update_pte (frame_pid fr, frame_page fr)
                                 (\<lambda>pte. pte\<lparr>referenced := False\<rparr>) k1) of
                         (r, k2, seen) \<Rightarrow>
                           (r, k2, ((frame_pid fr, frame_page fr), True) # seen))))"
  by pat_completeness auto
termination
proof (relation "measure (\<lambda>(bt, h, k). referenced_count (processes k))")
  show "wf (measure (\<lambda>(bt, h, k). referenced_count (processes k)))"
    by simp
next
  fix bt :: "nat list" and h :: nat and k k1 :: Kernel and fr :: Frame and process :: Process
  assume k1: "k1 = k\<lparr>replacer :=
                        ClockReplacer (if bt = [] then None else Some ((h + 1) mod length bt))\<rparr>"
    and "map_of (processes k1) (frame_pid fr) = Some process"
    and "\<not> length (pageTable process) \<le> frame_page fr"
    and "\<not> \<not> referenced (pageTable process ! frame_page fr)"
  then have "referenced_count
               (processes (update_pte (frame_pid fr, frame_page fr)
                             (\<lambda>pte. pte\<lparr>referenced := False\<rparr>) k1))
             < referenced_count (processes k)"
    using referenced_count_clear [of "processes k" "frame_pid fr" process "frame_page fr"]
    by (simp add: update_pte_def)
  then show "((bt, (h + 1) mod length bt,
               update_pte (frame_pid fr, frame_page fr) (\<lambda>pte. pte\<lparr>referenced := False\<rparr>) k1),
              (bt, h, k))
             \<in> measure (\<lambda>(bt, h, k). referenced_count (processes k))"
    by simp
qed

definition ClockReplacer_replace ::
  "nat option \<Rightarrow> Kernel \<Rightarrow> (thrown + pid \<times> nat) \<times> Kernel \<times> ((pid \<times> nat) \<times> bool) list" where
  "ClockReplacer_replace hand k =
     (let bt = busyTable (mmu k) in
      case hand of
        None \<Rightarrow> (Inl TypeError, k, [])
      | Some h0 \<Rightarrow>
          if bt = [] then (Inl TypeError, k\<lparr>replacer := ClockReplacer None\<rparr>, [])
          else clock_loop bt (min h0 (length bt - 1)) k)"

definition RandomReplacer_replace :: "Kernel \<Rightarrow> (thrown + pid \<times> nat) \<times> Kernel" where
  "RandomReplacer_replace k =
     (let (chosen, rs) = choose_arr (busyTable (mmu k)) (random k);
          k1 = k\<lparr>random := rs\<rparr>
      in case chosen of
           None \<Rightarrow> (Inl TypeError, k1)
         | Some f \<Rightarrow>
             (case MMU_get (mmu k1) f of
                None \<Rightarrow> (Inl TypeError, k1)
              | Some fr \<Rightarrow>
                  (case map_of (processes k1) (frame_pid fr) of
                     None \<Rightarrow> (Inl TypeError, k1)
                   | Some process \<Rightarrow> (Inr (frame_pid fr, frame_page fr), k1))))"

definition Kernel_replace :: "Kernel \<Rightarrow> (thrown + pid \<times> nat) \<times> Kernel" where
  "Kernel_replace k =
     (case replacer k of
        ClockReplacer hand \<Rightarrow>
          (case ClockReplacer_replace hand k of (r, k', seen) \<Rightarrow> (r, k'))
      | RandomReplacer \<Rightarrow> RandomReplacer_replace k
      | KernelItself \<Rightarrow> (Inl TypeError, k))"

subsection \<open>Termination of a process, page faults, system calls\<close>

text \<open>
  The loop of \<^verbatim>\<open>#terminateProcess\<close> over the entries of the page table. An entry that is
  \<^verbatim>\<open>presented\<close> but has no \<^verbatim>\<open>frame\<close> property passes \<^verbatim>\<open>undefined\<close> to \<^verbatim>\<open>free\<close>, which
  returns false because the busy set holds numbers only.
\<close>

fun free_loop :: "PageTableEntry list \<Rightarrow> MMU \<Rightarrow> (thrown + unit) \<times> MMU" where
  "free_loop [] m = (Inr (), m)"
| "free_loop (pte # ptes) m =
     (if presented pte then
        (case frame pte of
           None \<Rightarrow> free_loop ptes m
         | Some f \<Rightarrow>
             (case MMU_free f m of
                (Inl e, m') \<Rightarrow> (Inl e, m')
              | (Inr b, m') \<Rightarrow> free_loop ptes m'))
      else free_loop ptes m)"

definition Kernel_terminateProcess :: "pid \<Rightarrow> Kernel \<Rightarrow> (thrown + unit) \<times> Kernel" where
  "Kernel_terminateProcess p k =
     (case map_of (processes k) p of
        None \<Rightarrow> (Inl TypeError, k)
      | Some process \<Rightarrow>
          (case free_loop (pageTable process) (mmu k) of
             (Inl e, m') \<Rightarrow> (Inl e, k\<lparr>mmu := m'\<rparr>)
           | (Inr u, m') \<Rightarrow> (Inr (), k\<lparr>mmu := m', processes := Map_delete p (processes k)\<rparr>)))"

text \<open>
  The last two statements of \<^verbatim>\<open>#handlePageFault\<close>: \<^verbatim>\<open>pte.presented = true; pte.frame = fid\<close>,
  on the entry \<^verbatim>\<open>pageTable[page]\<close> that was resolved at the start of the handler from a page
  table of length \<open>len\<close>.
\<close>

definition bind_pte :: "pid \<Rightarrow> nat \<Rightarrow> nat \<Rightarrow> nat \<Rightarrow> Kernel \<Rightarrow> (thrown + unit) \<times> Kernel" where
  "bind_pte p pg len f k =
     (if len \<le> pg then (Inl TypeError, k)
      else (Inr (), update_pte (p, pg) (\<lambda>pte. pte\<lparr>presented := True, frame := Some f\<rparr>) k))"

definition Kernel_handlePageFault :: "pid \<Rightarrow> nat \<Rightarrow> Kernel \<Rightarrow> (thrown + unit) \<times> Kernel" where
  "Kernel_handlePageFault p pg k =
     (let k1 = k\<lparr>accessStats := (accessStats k)\<lparr>faults := faults (accessStats k) + 1\<rparr>\<rparr> in
      case map_of (processes k1) p of
        None \<Rightarrow> (Inl TypeError, k1)
      | Some process \<Rightarrow>
          (case MMU_alloc p pg (mmu k1) of
             (Inl e, m') \<Rightarrow> (Inl e, k1\<lparr>mmu := m'\<rparr>)
           | (Inr f, m') \<Rightarrow>
               let k2 = k1\<lparr>mmu := m'\<rparr> in
               if f = - 1 then
                 let k3 = k2\<lparr>accessStats :=
                               (accessStats k2)\<lparr>replaced := replaced (accessStats k2) + 1\<rparr>\<rparr>
                 in case Kernel_replace k3 of
                      (Inl e, k4) \<Rightarrow> (Inl e, k4)
                    | (Inr victim, k4) \<Rightarrow>
                        (case pte_at k4 victim of
                           None \<Rightarrow> (Inl TypeError, k4)
                         | Some vpte \<Rightarrow>
                             (case frame vpte of
                                None \<Rightarrow> (Inl TypeError, k4)
                              | Some vf \<Rightarrow>
                                  (case MMU_realloc vf p pg (mmu k4) of
                                     (Inl e, m5) \<Rightarrow> (Inl e, k4\<lparr>mmu := m5\<rparr>)
                                   | (Inr b, m5) \<Rightarrow>
                                       bind_pte p pg (length (pageTable process)) vf
                                         (update_pte victim (\<lambda>pte. pte\<lparr>presented := False\<rparr>)
                                            (k4\<lparr>mmu := m5\<rparr>)))))
               else bind_pte p pg (length (pageTable process)) (nat f) k2))"

definition Kernel_handleException :: "thrown \<Rightarrow> Kernel \<Rightarrow> (thrown + unit) \<times> Kernel" where
  \<comment> \<open>a value without the \<^verbatim>\<open>type\<close> of a page fault matches no case of the switch\<close>
  "Kernel_handleException e k =
     (case e of
        PageFault p pg \<Rightarrow> Kernel_handlePageFault p pg k
      | TypeError \<Rightarrow> (Inr (), k)
      | AssertionError \<Rightarrow> (Inr (), k))"

definition Kernel_dispatch :: "Syscall \<Rightarrow> Kernel \<Rightarrow> (thrown + unit) \<times> Kernel" where
  \<comment> \<open>the body of the \<^verbatim>\<open>try\<close> block of \<^verbatim>\<open>syscall\<close>\<close>
  "Kernel_dispatch sc k =
     (case sc of
        Exit p \<Rightarrow> Kernel_terminateProcess p k
      | AccessMemory p pg modify \<Rightarrow>
          (case map_of (processes k) p of
             None \<Rightarrow> (Inl TypeError, k)
           | Some process \<Rightarrow>
               (case MMU_access p (pageTable process) pg modify (mmu k) of
                  (r, pt', m') \<Rightarrow>
                    (r, k\<lparr>processes :=
                             Map_modify p (\<lambda>pr. pr\<lparr>pageTable := pt'\<rparr>) (processes k),
                           mmu := m'\<rparr>))))"

definition Kernel_syscall :: "Syscall \<Rightarrow> Kernel \<Rightarrow> (thrown + unit) \<times> Kernel" where
  \<comment> \<open>\<^verbatim>\<open>try { dispatch } catch (exception) { this.#handleException(exception) }\<close>\<close>
  "Kernel_syscall sc k =
     (case Kernel_dispatch sc k of
        (Inr u, k') \<Rightarrow> (Inr (), k')
      | (Inl e, k') \<Rightarrow> Kernel_handleException e k')"

subsection \<open>One step of a process\<close>

text \<open>
  \<^verbatim>\<open>Process.run(kernel)\<close> mutates its receiver, draws its random numbers, and then, on each
  of its two paths, calls \<^verbatim>\<open>kernel.syscall\<close> once and returns a constant. \<open>Process_step\<close>
  is the part up to that call: it gives the system call that is issued, the value that
  \<^verbatim>\<open>run\<close> returns after it, the receiver and the random source.
\<close>

definition Process_step :: "Process \<Rightarrow> rng \<Rightarrow> (Syscall \<times> bool) \<times> Process \<times> rng" where
  "Process_step this rs =
     (let c = counter this;
          this1 = this\<lparr>counter := c + 1\<rparr>
      in if ttl this1 \<le> c then ((Exit (pid this1), True), this1, rs)
         else
           let (this2, rs1) =
                 (if workingSetTtl this1 \<le> c then Process_rotate this1 rs else (this1, rs));
               (b, rs2) = roll double_0_9 rs1;
               chosen = (if b then workingSet this2 else idleSet this2);
               (page, rs3) = choose_arr chosen rs2;
               (modify, rs4) = roll double_0_5 rs3
           in ((AccessMemory (pid this2) page modify, False), this2, rs4))"

text \<open>
  A process object is reachable only as a value of the kernel's process map (\<^verbatim>\<open>#spawn\<close>
  stores it under its pid and \<^verbatim>\<open>Kernel.run\<close> calls \<^verbatim>\<open>run\<close> on the values of the map), so
  the receiver of \<^verbatim>\<open>run\<close> is given by its key. The \<open>None\<close> branch, a receiver that is not
  in the map, has no counterpart in the source.
\<close>

definition Process_run :: "pid \<Rightarrow> Kernel \<Rightarrow> (thrown + bool) \<times> Kernel" where
  "Process_run p k =
     (case map_of (processes k) p of
        None \<Rightarrow> (Inl TypeError, k)
      | Some this \<Rightarrow>
          (case Process_step this (random k) of
             ((sc, terminated), this', rs) \<Rightarrow>
               (case Kernel_syscall sc
                       (k\<lparr>processes := Map_set p this' (processes k), random := rs\<rparr>) of
                  (Inl e, k') \<Rightarrow> (Inl e, k')
                | (Inr u, k') \<Rightarrow> (Inr terminated, k'))))"

subsection \<open>Spawning, construction and the main loop\<close>

fun spawn_loop :: "nat \<Rightarrow> Kernel \<Rightarrow> Kernel option" where
  "spawn_loop 0 k = Some k"
| "spawn_loop (Suc n) k =
     (case rand_unique 1000 9999 (Map_has (processes k)) (random k) of
        None \<Rightarrow> None
      | Some (p, rs) \<Rightarrow>
          (case new_Process p rs of
             (process, rs') \<Rightarrow>
               spawn_loop n (k\<lparr>processes := Map_set p process (processes k), random := rs'\<rparr>)))"

definition Kernel_spawn :: "nat \<Rightarrow> Kernel \<Rightarrow> Kernel option" where
  \<comment> \<open>\<open>None\<close>: the rejection sampling of a pid never ends\<close>
  "Kernel_spawn count k = spawn_loop (min count MAX_PROCESS_COUNT) k"

text \<open>
  \<^verbatim>\<open>Kernel.#REPLACER\<close> is an object literal with the two own keys \<^verbatim>\<open>clock\<close> and \<^verbatim>\<open>random\<close>.
  The lookup \<^verbatim>\<open>Kernel.#REPLACER[algo]\<close> also finds the properties that the object inherits
  from \<^verbatim>\<open>Object.prototype\<close>: the function \<^verbatim>\<open>Object\<close> under the key \<^verbatim>\<open>constructor\<close>, the
  prototype object under \<^verbatim>\<open>__proto__\<close>, and a built-in method under each of the other keys.
  All of them are truthy, so \<^verbatim>\<open>assert(Replacer, ...)\<close> lets them pass. The lookup of any
  other string is \<^verbatim>\<open>undefined\<close>, here \<open>None\<close>.
\<close>

datatype looked_up = ClockClass | RandomClass | ObjectFunction | NotAConstructor

definition inherited_keys :: "string list" where
  "inherited_keys =
     [''__defineGetter__'', ''__defineSetter__'', ''__lookupGetter__'', ''__lookupSetter__'',
      ''__proto__'', ''hasOwnProperty'', ''isPrototypeOf'', ''propertyIsEnumerable'',
      ''toLocaleString'', ''toString'', ''valueOf'']"

definition REPLACER :: "string \<Rightarrow> looked_up option" where
  "REPLACER algo =
     (if algo = ''clock'' then Some ClockClass
      else if algo = ''random'' then Some RandomClass
      else if algo = ''constructor'' then Some ObjectFunction
      else if algo \<in> set inherited_keys then Some NotAConstructor
      else None)"

definition new_Replacer :: "looked_up \<Rightarrow> thrown + Replacer" where
  \<comment> \<open>\<^verbatim>\<open>new Replacer(this)\<close>; a value that is not a constructor makes \<^verbatim>\<open>new\<close> throw\<close>
  "new_Replacer c =
     (case c of
        ClockClass \<Rightarrow> Inr (ClockReplacer (Some 0))
      | RandomClass \<Rightarrow> Inr RandomReplacer
      | ObjectFunction \<Rightarrow> Inr KernelItself
      | NotAConstructor \<Rightarrow> Inl TypeError)"

definition new_Kernel :: "string \<Rightarrow> rng \<Rightarrow> (thrown + Kernel) option" where
  \<comment> \<open>the field initialiser \<^verbatim>\<open>#mmu = new MMU()\<close> runs before the body of the constructor\<close>
  "new_Kernel algo rs =
     (let (m, rs1) = new_MMU rs in
      case REPLACER algo of
        None \<Rightarrow> Some (Inl AssertionError)
      | Some c \<Rightarrow>
          (case new_Replacer c of
             Inl e \<Rightarrow> Some (Inl e)
           | Inr r \<Rightarrow>
               let (count, rs2) = rand 5 10 rs1 in
               map_option Inr
                 (Kernel_spawn count
                    \<lparr>replacer = r, processes = [], mmu = m,
                     accessStats = \<lparr>total = 0, faults = 0, replaced = 0\<rparr>, random = rs2\<rparr>)))"

text \<open>
  One iteration of the \<^verbatim>\<open>while\<close> loop of \<^verbatim>\<open>Kernel.run\<close>, without the printing and the
  pause. The \<^verbatim>\<open>for ... of\<close> loop runs over the values of the map; a step of a process
  removes at most that process from the map, so the loop is taken over the keys present
  when it starts. A value thrown by a step leaves \<^verbatim>\<open>run\<close>.
\<close>

fun run_steps :: "nat \<Rightarrow> pid \<Rightarrow> Kernel \<Rightarrow> (thrown + unit) \<times> Kernel" where
  "run_steps 0 p k = (Inr (), k)"
| "run_steps (Suc n) p k =
     (case Process_run p (k\<lparr>accessStats := (accessStats k)\<lparr>total := total (accessStats k) + 1\<rparr>\<rparr>) of
        (Inl e, k') \<Rightarrow> (Inl e, k')
      | (Inr terminated, k') \<Rightarrow> if terminated then (Inr (), k') else run_steps n p k')"

fun run_processes :: "pid list \<Rightarrow> Kernel \<Rightarrow> (thrown + unit) \<times> Kernel" where
  "run_processes [] k = (Inr (), k)"
| "run_processes (p # ps) k =
     (case rand 64 128 (random k) of
        (processTime, rs) \<Rightarrow>
          (case run_steps processTime p (k\<lparr>random := rs\<rparr>) of
             (Inl e, k') \<Rightarrow> (Inl e, k')
           | (Inr u, k') \<Rightarrow> run_processes ps k'))"

definition Kernel_tick :: "Kernel \<Rightarrow> ((thrown + unit) \<times> Kernel) option" where
  "Kernel_tick k =
     (case run_processes (map fst (processes k)) k of
        (Inl e, k1) \<Rightarrow> Some (Inl e, k1)
      | (Inr u, k1) \<Rightarrow>
          if length (processes k1) < MAX_PROCESS_COUNT then
            (case roll double_0_45 (random k1) of
               (b, rs) \<Rightarrow>
                 if b then
                   (case rand 1 3 rs of
                      (count, rs') \<Rightarrow>
                        map_option (Pair (Inr ()))
                          (Kernel_spawn (min count (MAX_PROCESS_COUNT - length (processes k1)))
                             (k1\<lparr>random := rs'\<rparr>)))
                 else Some (Inr (), k1\<lparr>random := rs\<rparr>))
          else Some (Inr (), k1))"

text \<open>
  The states of the kernel that the program runs through when it is started with the name
  \<open>algo\<close>: the state the constructor leaves, and the state after each iteration of the main
  loop, entered while the map of processes is not empty. An iteration that throws ends the
  program in the state at the throw.
\<close>

inductive reachable :: "string \<Rightarrow> Kernel \<Rightarrow> bool" where
  constructed: "new_Kernel algo rs = Some (Inr k) \<Longrightarrow> reachable algo k"
| ticked: "reachable algo k \<Longrightarrow> processes k \<noteq> [] \<Longrightarrow> Kernel_tick k = Some (r, k') \<Longrightarrow>
           reachable algo k'"

section \<open>Properties of the MMU\<close>

text \<open>
  The invariants of the MMU state: the busy set and the free list have no repetition, they
  are disjoint, together they hold every index of the frame table, and the \<^verbatim>\<open>busy\<close> flag of
  a frame agrees with membership in the busy set.
\<close>

definition mmu_inv :: "MMU \<Rightarrow> bool" where
  "mmu_inv m =
     (distinct (busyTable m) \<and> distinct (freeTable m) \<and>
      set (busyTable m) \<inter> set (freeTable m) = {} \<and>
      set (busyTable m) \<union> set (freeTable m) = set [0..<length (frameTable m)] \<and>
      (\<forall>f \<in> set [0..<length (frameTable m)]. busy (frameTable m ! f) = (f \<in> set (busyTable m))))"

lemma mmu_inv_busy_valid: "mmu_inv m \<Longrightarrow> f \<in> set (busyTable m) \<Longrightarrow> f < length (frameTable m)"
  by (auto simp: mmu_inv_def)

lemma mmu_inv_free_valid: "mmu_inv m \<Longrightarrow> f \<in> set (freeTable m) \<Longrightarrow> f < length (frameTable m)"
  by (auto simp: mmu_inv_def)

lemma mmu_inv_free_not_busy: "mmu_inv m \<Longrightarrow> f \<in> set (freeTable m) \<Longrightarrow> f \<notin> set (busyTable m)"
  by (auto simp: mmu_inv_def)

text \<open>A small MMU and page table on which the statements below are evaluated.\<close>

definition example_mmu :: MMU where
  "example_mmu =
     \<lparr>frameTable = [\<lparr>fid = 0, busy = True, frame_pid = 1000, frame_page = 1\<rparr>, new_Frame 1],
      busyTable = [0], freeTable = [1]\<rparr>"

definition example_pageTable :: "PageTableEntry list" where
  "example_pageTable = [new_PageTableEntry, new_PageTableEntry\<lparr>presented := True, frame := Some 0\<rparr>]"

lemma mmu_inv_example: "mmu_inv example_mmu"
  by (auto simp: mmu_inv_def example_mmu_def new_Frame_def)

text \<open>
  Claim C4. For a page index inside the page table, \<^verbatim>\<open>mmu.access(pid, pageTable, page, modify)\<close>
  throws if and only if the entry is not \<^verbatim>\<open>presented\<close>; what it throws is the page fault
  carrying \<open>(pid, page)\<close>, and the page table and the MMU are then unchanged. Otherwise it
  returns normally, the entry has \<^verbatim>\<open>referenced\<close> set, \<^verbatim>\<open>modified\<close> set when \<^verbatim>\<open>modify\<close> is
  true and left as it was when \<^verbatim>\<open>modify\<close> is false, and every other field, every other
  entry and the MMU are unchanged.
\<close>

theorem access_page_fault_iff:
  assumes "i < length pt"
  shows "((\<exists>e. fst (MMU_access p pt (Some i) modify m) = Inl e) = (\<not> presented (pt ! i))) \<and>
         (\<not> presented (pt ! i) \<longrightarrow>
            MMU_access p pt (Some i) modify m = (Inl (PageFault p i), pt, m)) \<and>
         (presented (pt ! i) \<longrightarrow>
            MMU_access p pt (Some i) modify m =
              (Inr (),
               pt[i := (pt ! i)\<lparr>referenced := True, modified := (modify \<or> modified (pt ! i))\<rparr>],
               m))"
  using assms by (auto simp: MMU_access_def Let_def)

theorem access_page_fault_iff_witness:
  "MMU_access 1000 example_pageTable (Some 0) True example_mmu =
     (Inl (PageFault 1000 0), example_pageTable, example_mmu) \<and>
   MMU_access 1000 example_pageTable (Some 1) True example_mmu =
     (Inr (),
      [new_PageTableEntry,
       new_PageTableEntry\<lparr>presented := True, frame := Some 0, referenced := True, modified := True\<rparr>],
      example_mmu)"
  using access_page_fault_iff [of 0 example_pageTable 1000 True example_mmu]
    access_page_fault_iff [of 1 example_pageTable 1000 True example_mmu]
  by (simp add: example_pageTable_def new_PageTableEntry_def)

text \<open>
  Claim C9. \<^verbatim>\<open>mmu.alloc\<close> returns the sentinel \<open>-1\<close> and leaves the MMU as it is when the
  free list is empty. \<^verbatim>\<open>mmu.free(fid)\<close> returns false and leaves the MMU as it is when
  \<open>fid\<close> is not in the busy set; in an MMU state (one that satisfies the invariants) it
  returns true exactly when \<open>fid\<close> is in the busy set.
\<close>

theorem alloc_free_sentinels:
  "(freeTable m = [] \<longrightarrow> MMU_alloc p pg m = (Inr (- 1), m)) \<and>
   (f \<notin> set (busyTable m) \<longrightarrow> MMU_free f m = (Inr False, m)) \<and>
   (mmu_inv m \<longrightarrow> (fst (MMU_free f m) = Inr True) = (f \<in> set (busyTable m)))"
  by (auto simp: MMU_alloc_def MMU_free_def MMU_get_def dest: mmu_inv_busy_valid)

theorem alloc_free_sentinels_witness:
  "MMU_alloc 1000 0 (example_mmu\<lparr>freeTable := []\<rparr>) = (Inr (- 1), example_mmu\<lparr>freeTable := []\<rparr>) \<and>
   MMU_free 1 example_mmu = (Inr False, example_mmu) \<and>
   fst (MMU_free 0 example_mmu) = Inr True \<and> fst (MMU_free 1 example_mmu) \<noteq> Inr True"
  using alloc_free_sentinels [of "example_mmu\<lparr>freeTable := []\<rparr>" 1000 0 1]
    alloc_free_sentinels [of example_mmu 1000 0 1]
    alloc_free_sentinels [of example_mmu 1000 0 0] mmu_inv_example
  by (simp add: example_mmu_def)

text \<open>
  Claim C8. In an MMU state (one that satisfies the invariants), when \<^verbatim>\<open>alloc(pid, page)\<close>
  returns a frame id, \<^verbatim>\<open>free\<close> of that id succeeds and restores the busy set and the free
  list; the frame table is the one before \<^verbatim>\<open>alloc\<close> with the \<^verbatim>\<open>busy\<close>, \<^verbatim>\<open>pid\<close> and \<^verbatim>\<open>page\<close>
  attributes of that frame at their free values. With a \<^verbatim>\<open>realloc\<close> of the same frame
  between \<^verbatim>\<open>alloc\<close> and \<^verbatim>\<open>free\<close>, the MMU ends in the same state.
\<close>

theorem alloc_free_round_trip:
  assumes "mmu_inv m" and "MMU_alloc p pg m = (Inr r, m1)" and "r \<noteq> - 1"
  shows "\<exists>m2. MMU_free (nat r) m1 = (Inr True, m2) \<and>
              busyTable m2 = busyTable m \<and> freeTable m2 = freeTable m \<and>
              frameTable m2 =
                (frameTable m)[nat r := (frameTable m ! nat r)\<lparr>busy := False, frame_pid := 0, frame_page := 0\<rparr>] \<and>
              (\<exists>m3. MMU_realloc (nat r) p' pg' m1 = (Inr True, m3) \<and>
                    MMU_free (nat r) m3 = (Inr True, m2))"
proof -
  from assms(2,3) have ne: "freeTable m \<noteq> []"
    by (auto simp: MMU_alloc_def)
  define f where "f = last (freeTable m)"
  from ne have fin: "f \<in> set (freeTable m)" by (simp add: f_def)
  with assms(1) have flt: "f < length (frameTable m)" and fnb: "f \<notin> set (busyTable m)"
    by (auto dest: mmu_inv_free_valid mmu_inv_free_not_busy)
  from ne have bl: "butlast (freeTable m) @ [f] = freeTable m"
    by (simp add: f_def)
  from assms(2) ne flt have r: "r = int f"
    and m1: "m1 = m\<lparr>freeTable := butlast (freeTable m),
                    frameTable := (frameTable m)[f := (frameTable m ! f)\<lparr>busy := True, frame_pid := p, frame_page := pg\<rparr>],
                    busyTable := busyTable m @ [f]\<rparr>"
    using fnb by (auto simp: MMU_alloc_def MMU_get_def Let_def f_def Set_add_def)
  show ?thesis
    using flt fnb bl by (simp add: r m1 MMU_free_def MMU_realloc_def MMU_get_def Set_delete_def)
qed

theorem alloc_free_round_trip_witness:
  "\<exists>m1 m2 m3. MMU_alloc 1000 0 example_mmu = (Inr 1, m1) \<and> MMU_free 1 m1 = (Inr True, m2) \<and>
     busyTable m2 = [0] \<and> freeTable m2 = [1] \<and>
     MMU_realloc 1 1001 5 m1 = (Inr True, m3) \<and> MMU_free 1 m3 = (Inr True, m2)"
proof -
  have a: "MMU_alloc 1000 0 example_mmu =
             (Inr 1, \<lparr>frameTable = [\<lparr>fid = 0, busy = True, frame_pid = 1000, frame_page = 1\<rparr>,
                                   \<lparr>fid = 1, busy = True, frame_pid = 1000, frame_page = 0\<rparr>],
                      busyTable = [0, 1], freeTable = []\<rparr>)"
    by (simp add: MMU_alloc_def MMU_get_def example_mmu_def new_Frame_def Set_add_def)
  from alloc_free_round_trip [OF mmu_inv_example a, of 1001 5]
  show ?thesis using a by (auto simp: example_mmu_def)
qed

section \<open>The page a process step asks for\<close>

text \<open>
  The rounded product stays below \<open>unat d * n + n\<close>, so \<^verbatim>\<open>Math.floor(Math.random() * n)\<close> is
  an index below \<open>n\<close>, although it is one more than the floor of the exact product on some
  draws. It is the floor of the exact product whenever the exact product has a margin of \<open>n\<close>
  below the next multiple of \<open>2^53\<close>.
\<close>

declare bit_length.simps [simp del]

lemma bit_length_0 [simp]: "bit_length 0 = 0"
  by (simp add: bit_length.simps)

lemma bit_length_lower: "0 < n \<Longrightarrow> 2 ^ (bit_length n - 1) \<le> n"
proof (induction n rule: bit_length.induct)
  case (1 n)
  show ?case
  proof (cases "n div 2 = 0")
    case True
    with "1.prems" show ?thesis
      by (simp add: bit_length.simps [of n])
  next
    case False
    with "1.IH" "1.prems" have "2 ^ (bit_length (n div 2) - 1) \<le> n div 2" by simp
    moreover from False have "0 < bit_length (n div 2)"
      by (simp add: bit_length.simps [of "n div 2"])
    ultimately have "2 ^ bit_length (n div 2) \<le> 2 * (n div 2)"
      by (cases "bit_length (n div 2)") simp_all
    with "1.prems" show ?thesis
      by (simp add: bit_length.simps [of n])
  qed
qed

lemma bit_length_le: "n < 2 ^ k \<Longrightarrow> bit_length n \<le> k"
proof (induction n arbitrary: k rule: bit_length.induct)
  case (1 n)
  show ?case
  proof (cases "n = 0")
    case True
    then show ?thesis by simp
  next
    case False
    with "1.prems" obtain j where k: "k = Suc j" by (cases k) auto
    with "1.prems" have "n div 2 < 2 ^ j" by auto
    with "1.IH" False have "bit_length (n div 2) \<le> j" by simp
    with False k show ?thesis by (simp add: bit_length.simps [of n])
  qed
qed

lemma round_even_exact: "2 ^ e dvd p \<Longrightarrow> round_even e p = p"
  by (auto simp: round_even_def Let_def mod_eq_0_iff_dvd)

lemma round_even_0 [simp]: "round_even 0 p = p"
  by (simp add: round_even_exact)

lemma round_even_upper: "0 < e \<Longrightarrow> round_even e p \<le> p + 2 ^ (e - 1)"
proof -
  assume "0 < e"
  then obtain j where e: "e = Suc j" by (cases e) auto
  have "p div 2 ^ e * 2 ^ e + p mod 2 ^ e = p" by (rule div_mult_mod_eq)
  then show ?thesis
    unfolding round_even_def Let_def e by auto
qed

lemma round_even_lower:
  assumes "2 ^ e dvd a" and "a \<le> p"
  shows "a \<le> round_even e p"
proof -
  from assms(1) obtain m where a: "a = m * 2 ^ e" by (auto simp: dvd_def)
  with assms(2) have "m \<le> p div 2 ^ e"
    by (simp add: less_eq_div_iff_mult_less_eq)
  then have "a \<le> p div 2 ^ e * 2 ^ e" by (simp add: a)
  then show ?thesis by (auto simp: round_even_def Let_def)
qed

lemma unat_draw_less: "unat (d :: draw) < 2 ^ 53"
  using unsigned_less [of d] by simp

lemma times_double_upper:
  assumes "0 < n"
  shows "times_double d n < unat d * n + n"
proof -
  define A :: nat where "A = 2 ^ 53"
  let ?p = "unat d * n"
  let ?e = "bit_length ?p - 53"
  show ?thesis
  proof (cases "?e = 0")
    case True
    with assms show ?thesis by (simp add: times_double_def)
  next
    case False
    then have pos: "0 < ?p" by (cases "?p = 0") auto
    from False have b: "bit_length ?p - 1 = 53 + (?e - 1)" by simp
    from bit_length_lower [OF pos] have "2 ^ (53 + (?e - 1)) \<le> ?p" by (simp only: b)
    then have "A * 2 ^ (?e - 1) \<le> ?p" by (simp only: power_add A_def)
    moreover have "unat d < A" unfolding A_def by (rule unat_draw_less)
    then have "?p < A * n" using assms by (simp add: mult.commute)
    ultimately have "A * 2 ^ (?e - 1) < A * n" by (rule le_less_trans)
    then have "(2::nat) ^ (?e - 1) < n" by simp
    moreover from False have "round_even ?e ?p \<le> ?p + 2 ^ (?e - 1)"
      by (intro round_even_upper) simp
    ultimately show ?thesis by (simp add: times_double_def Let_def)
  qed
qed

lemma floor_times_less: "0 < n \<Longrightarrow> floor_times d n < n"
proof -
  assume n: "0 < n"
  define A :: nat where "A = 2 ^ 53"
  have "unat d < A" unfolding A_def by (rule unat_draw_less)
  then have "unat d + 1 \<le> A" by simp
  then have "(unat d + 1) * n \<le> A * n" by (rule mult_le_mono1)
  then have "unat d * n + n \<le> n * A" by (simp add: algebra_simps)
  with times_double_upper [OF n, of d] have "times_double d n < n * A" by simp
  then have "times_double d n div A < n"
    by (simp add: less_mult_imp_div_less)
  then show ?thesis
    by (simp only: floor_times_def A_def)
qed

lemma floor_times_eqI:
  assumes lo: "a * 2 ^ 53 \<le> unat d * n" and hi: "unat d * n + n \<le> (a + 1) * 2 ^ 53"
    and n: "n \<le> 2 ^ 53"
  shows "floor_times d n = a"
proof (cases "n = 0")
  case True
  with lo have "a = 0" by simp
  with True show ?thesis by (simp add: floor_times_def times_double_def)
next
  case False
  define A :: nat where "A = 2 ^ 53"
  let ?p = "unat d * n"
  let ?e = "bit_length ?p - 53"
  have "unat d < A" unfolding A_def by (rule unat_draw_less)
  then have "?p < A * n" using False by (simp add: mult.commute)
  also have "\<dots> \<le> A * A" using n by (simp add: A_def)
  also have "\<dots> = 2 ^ 106" by (simp add: A_def flip: power_add)
  finally have "bit_length ?p \<le> 106" by (rule bit_length_le)
  then have "?e \<le> 53" by simp
  then have "(2::nat) ^ ?e dvd 2 ^ 53" by (rule le_imp_power_dvd)
  then have "2 ^ ?e dvd a * 2 ^ 53" by (rule dvd_mult)
  from round_even_lower [OF this lo] have 1: "a * A \<le> times_double d n"
    by (simp only: times_double_def Let_def A_def)
  from times_double_upper [of n d] False hi have 2: "times_double d n < (a + 1) * A"
    by (simp add: A_def)
  from 1 2 have "times_double d n div A = a"
    by (intro div_nat_eqI) (simp_all add: mult.commute)
  then show ?thesis by (simp only: floor_times_def A_def)
qed

lemma floor_times_0 [simp]: "floor_times 0 n = 0"
  by (simp add: floor_times_def times_double_def)

text \<open>
  No draw lies between a decimal threshold of the program and the double that it denotes:
  comparing with the double is comparing with the decimal.
\<close>

lemma unit_value_less_iff:
  "0 < b \<Longrightarrow> unit_value d < of_nat a / of_nat b \<longleftrightarrow> unat d * b < a * 2 ^ 53"
proof -
  assume b: "0 < b"
  have "unit_value d < of_nat a / of_nat b \<longleftrightarrow>
          (of_nat (unat d) :: rat) * of_nat b < of_nat a * 2 ^ 53"
    using b by (simp add: unit_value_def field_simps)
  also have "\<dots> \<longleftrightarrow> (of_nat (unat d * b) :: rat) < of_nat (a * 2 ^ 53)"
    by simp
  also have "\<dots> \<longleftrightarrow> unat d * b < a * 2 ^ 53"
    by (rule of_nat_less_iff)
  finally show ?thesis .
qed

lemma literal_thresholds:
  "unit_value d < double_0_20 \<longleftrightarrow> unit_value d < 20 / 100"
  "unit_value d < double_0_45 \<longleftrightarrow> unit_value d < 45 / 100"
  "unit_value d < double_0_5 \<longleftrightarrow> unit_value d < 5 / 10"
  "unit_value d < double_0_9 \<longleftrightarrow> unit_value d < 9 / 10"
proof -
  have "unit_value d < double_0_20 \<longleftrightarrow> unat d * 2 ^ 54 < 3602879701896397 * 2 ^ 53"
    using unit_value_less_iff [of "2 ^ 54" d 3602879701896397]
    by (simp add: double_0_20_def)
  also have "\<dots> \<longleftrightarrow> unat d * 100 < 20 * 2 ^ 53"
    by simp arith
  also have "\<dots> \<longleftrightarrow> unit_value d < 20 / 100"
    using unit_value_less_iff [of 100 d 20] by simp
  finally show "unit_value d < double_0_20 \<longleftrightarrow> unit_value d < 20 / 100" .
  have "unit_value d < double_0_45 \<longleftrightarrow> unat d * 2 ^ 54 < 8106479329266893 * 2 ^ 53"
    using unit_value_less_iff [of "2 ^ 54" d 8106479329266893]
    by (simp add: double_0_45_def)
  also have "\<dots> \<longleftrightarrow> unat d * 100 < 45 * 2 ^ 53"
    by simp arith
  also have "\<dots> \<longleftrightarrow> unit_value d < 45 / 100"
    using unit_value_less_iff [of 100 d 45] by simp
  finally show "unit_value d < double_0_45 \<longleftrightarrow> unit_value d < 45 / 100" .
  have "unit_value d < double_0_9 \<longleftrightarrow> unat d * 2 ^ 53 < 8106479329266893 * 2 ^ 53"
    using unit_value_less_iff [of "2 ^ 53" d 8106479329266893]
    by (simp add: double_0_9_def)
  also have "\<dots> \<longleftrightarrow> unat d * 10 < 9 * 2 ^ 53"
    by simp arith
  also have "\<dots> \<longleftrightarrow> unit_value d < 9 / 10"
    using unit_value_less_iff [of 10 d 9] by simp
  finally show "unit_value d < double_0_9 \<longleftrightarrow> unit_value d < 9 / 10" .
  show "unit_value d < double_0_5 \<longleftrightarrow> unit_value d < 5 / 10"
    by (simp add: double_0_5_def)
qed

lemma choose_arr_nonempty:
  "arr \<noteq> [] \<Longrightarrow> \<exists>x \<in> set arr. fst (choose_arr arr rs) = Some x"
  using floor_times_less [of "length arr" "shd rs"]
  by (auto simp: choose_arr_def Let_def)

lemma choose_arr_empty: "choose_arr [] rs = (None, stl rs)"
  by (simp add: choose_arr_def)

lemma rotate_loop_all_idle:
  "\<not> unit_value d < 20 / 100 \<Longrightarrow>
   rotate_loop pages working idle (sconst d) = (working, idle @ pages, sconst d)"
  by (induction pages arbitrary: idle) (simp_all add: roll_def literal_thresholds)

text \<open>The draw that stands for 0.5, and the process the constructor builds from it.\<close>

definition half :: draw where
  "half = 2 ^ 52"

lemma unit_value_half: "unit_value half = 1 / 2"
  by (simp add: unit_value_def half_def)

lemma new_Process_half:
  "new_Process p (sconst half) =
     (\<lparr>pid = p, pageTable = replicate 48 new_PageTableEntry, ttl = 1536, idleSet = [0..<48],
       workingSet = [], workingSetTtl = 192, counter = 0\<rparr>, sconst half)"
proof -
  have r: "\<not> unit_value half < 20 / 100" by (simp add: unit_value_half)
  have "floor_times half 33 = 16" "floor_times half 1025 = 512" "floor_times half 129 = 64"
    by (rule floor_times_eqI; simp add: half_def)+
  then have a: "rand_num 32 64 half = 48" "rand_num 1024 2048 half = 1536" "rand_num 128 256 half = 192"
    by (simp_all add: rand_num_def)
  show ?thesis
    by (simp add: new_Process_def Process_rotate_def rand_def a rotate_loop_all_idle [OF r]
        del: upt_Suc)
qed

text \<open>
  Claim C1 says that a step which does not exit falls back to the other set when the set
  it selected is empty, so that the page of the system call is always an index of the page
  table. \<^verbatim>\<open>Process.run\<close> has no such fallback. When every draw is 0.5, the constructor
  puts all 48 pages in the idle set (no roll is below 0.20); the first step selects the
  working set (0.5 is below 0.9), \<^verbatim>\<open>choose\<close> reads index 0 of the empty array, and the
  system call is issued with the page \<^verbatim>\<open>undefined\<close>.
\<close>

theorem run_empty_working_set:
  "workingSet (fst (new_Process 1000 (sconst half))) = [] \<and>
   idleSet (fst (new_Process 1000 (sconst half))) = [0..<48] \<and>
   fst (Process_step (fst (new_Process 1000 (sconst half))) (sconst half)) =
     (AccessMemory 1000 None False, False)"
  by (simp add: new_Process_half Process_step_def roll_def literal_thresholds unit_value_half
      choose_arr_empty del: upt_Suc)

section \<open>Basic facts about the process map and page-table entries\<close>

lemma map_of_Map_modify:
  "map_of (Map_modify p g ps) q = (if q = p then map_option g (map_of ps p) else map_of ps q)"
  by (induction ps) auto

lemma pte_at_update_pte:
  "pte_at (update_pte r g k) r' = (if r' = r then map_option g (pte_at k r) else pte_at k r')"
  by (cases r; cases r')
     (auto simp: pte_at_def update_pte_def map_of_Map_modify split: option.splits)

lemma mmu_update_pte [simp]: "mmu (update_pte r g k) = mmu k"
  by (simp add: update_pte_def)

lemma replacer_update_pte [simp]: "replacer (update_pte r g k) = replacer k"
  by (simp add: update_pte_def)

lemma random_update_pte [simp]: "random (update_pte r g k) = random k"
  by (simp add: update_pte_def)

lemma accessStats_update_pte [simp]: "accessStats (update_pte r g k) = accessStats k"
  by (simp add: update_pte_def)

lemma pte_at_replacer [simp]: "pte_at (k\<lparr>replacer := x\<rparr>) r = pte_at k r"
  by (simp add: pte_at_def)

section \<open>The clock replacer\<close>

declare clock_loop.simps [simp del]

text \<open>
  \<open>frame_ref k f\<close> is the address of the page-table entry that frame \<open>f\<close> records.
  \<open>clock_pre\<close> is the condition under which the loop is run: the hand is inside the
  snapshot of the busy table, every frame of the snapshot exists and the entry it records
  exists. \<open>clear_referenced\<close> is the state after an iteration that found the bit set.
\<close>

definition frame_ref :: "Kernel \<Rightarrow> nat \<Rightarrow> pid \<times> nat" where
  "frame_ref k f = (frame_pid (frameTable (mmu k) ! f), frame_page (frameTable (mmu k) ! f))"

definition clock_pre :: "nat list \<Rightarrow> nat \<Rightarrow> Kernel \<Rightarrow> bool" where
  "clock_pre bt h k =
     (h < length bt \<and>
      (\<forall>f \<in> set bt. f < length (frameTable (mmu k)) \<and> pte_at k (frame_ref k f) \<noteq> None))"

definition clear_referenced :: "pid \<times> nat \<Rightarrow> nat list \<Rightarrow> nat \<Rightarrow> Kernel \<Rightarrow> Kernel" where
  "clear_referenced r bt h k =
     update_pte r (\<lambda>pte. pte\<lparr>referenced := False\<rparr>)
       (k\<lparr>replacer := ClockReplacer (if bt = [] then None else Some ((h + 1) mod length bt))\<rparr>)"

lemma frame_ref_clear [simp]: "frame_ref (clear_referenced r bt h k) f = frame_ref k f"
  by (simp add: frame_ref_def clear_referenced_def)

lemma mmu_clear [simp]: "mmu (clear_referenced r bt h k) = mmu k"
  by (simp add: clear_referenced_def)

lemma accessStats_clear [simp]: "accessStats (clear_referenced r bt h k) = accessStats k"
  by (simp add: clear_referenced_def)

lemma random_clear [simp]: "random (clear_referenced r bt h k) = random k"
  by (simp add: clear_referenced_def)

lemma pte_at_clear:
  "pte_at (clear_referenced r bt h k) r' =
     (if r' = r then map_option (\<lambda>pte. pte\<lparr>referenced := False\<rparr>) (pte_at k r) else pte_at k r')"
  by (simp add: clear_referenced_def pte_at_update_pte)

lemma clock_pre_clear:
  "clock_pre bt h k \<Longrightarrow> clock_pre bt (Suc h mod length bt) (clear_referenced r bt h k)"
proof -
  assume pre: "clock_pre bt h k"
  then have "0 < length bt" by (cases bt) (auto simp: clock_pre_def)
  then have "Suc h mod length bt < length bt" by (rule mod_less_divisor)
  with pre show ?thesis by (auto simp: clock_pre_def pte_at_clear)
qed

lemma clock_loop_return:
  assumes "clock_pre bt h k" and "pte_at k (frame_ref k (bt ! h)) = Some e" and "\<not> referenced e"
  shows "clock_loop bt h k =
           (Inr (frame_ref k (bt ! h)),
            k\<lparr>replacer := ClockReplacer (Some (Suc h mod length bt))\<rparr>,
            [(frame_ref k (bt ! h), False)])"
proof -
  from assms(1) have h: "h < length bt" and f: "bt ! h < length (frameTable (mmu k))"
    by (auto simp: clock_pre_def)
  from h have ne: "bt \<noteq> []" by auto
  show ?thesis
    using assms(2,3) h f ne
    by (subst clock_loop.simps)
       (auto simp: Let_def MMU_get_def pte_at_def frame_ref_def split: option.splits if_splits)
qed

lemma clock_loop_continue:
  assumes "clock_pre bt h k" and "pte_at k (frame_ref k (bt ! h)) = Some e" and "referenced e"
  shows "clock_loop bt h k =
           (case clock_loop bt (Suc h mod length bt)
                   (clear_referenced (frame_ref k (bt ! h)) bt h k) of
              (r, k2, seen) \<Rightarrow> (r, k2, (frame_ref k (bt ! h), True) # seen))"
proof -
  from assms(1) have h: "h < length bt" and f: "bt ! h < length (frameTable (mmu k))"
    by (auto simp: clock_pre_def)
  from h have ne: "bt \<noteq> []" by auto
  show ?thesis
    using assms(2,3) h f ne
    by (subst clock_loop.simps)
       (auto simp: Let_def MMU_get_def pte_at_def frame_ref_def clear_referenced_def
             split: option.splits if_splits)
qed

lemma referenced_count_clear_referenced:
  assumes "pte_at k r = Some e" and "referenced e"
  shows "referenced_count (processes (clear_referenced r bt h k)) < referenced_count (processes k)"
proof -
  obtain p i where r: "r = (p, i)" by (cases r)
  from assms obtain process where "map_of (processes k) p = Some process"
    and "i < length (pageTable process)" and "referenced (pageTable process ! i)"
    by (auto simp: pte_at_def r split: option.splits if_splits)
  then show ?thesis
    using referenced_count_clear [of "processes k" p process i]
    by (simp add: clear_referenced_def update_pte_def r)
qed

lemma clock_loop_induct [consumes 1, case_names return continue]:
  assumes pre: "clock_pre bt h k"
    and return: "\<And>h k e. clock_pre bt h k \<Longrightarrow> pte_at k (frame_ref k (bt ! h)) = Some e \<Longrightarrow>
                   \<not> referenced e \<Longrightarrow> P h k"
    and continue: "\<And>h k e. clock_pre bt h k \<Longrightarrow> pte_at k (frame_ref k (bt ! h)) = Some e \<Longrightarrow>
                   referenced e \<Longrightarrow>
                   P (Suc h mod length bt) (clear_referenced (frame_ref k (bt ! h)) bt h k) \<Longrightarrow>
                   P h k"
  shows "P h k"
  using pre
proof (induction "referenced_count (processes k)" arbitrary: h k rule: less_induct)
  case less
  from less.prems have "bt ! h \<in> set bt" by (simp add: clock_pre_def)
  with less.prems have "pte_at k (frame_ref k (bt ! h)) \<noteq> None"
    unfolding clock_pre_def by blast
  then obtain e where e: "pte_at k (frame_ref k (bt ! h)) = Some e"
    by auto
  show ?case
  proof (cases "referenced e")
    case False
    with less.prems e show ?thesis by (rule return)
  next
    case True
    have "P (Suc h mod length bt) (clear_referenced (frame_ref k (bt ! h)) bt h k)"
      by (rule less.hyps) (use e True less.prems in \<open>auto intro: referenced_count_clear_referenced clock_pre_clear\<close>)
    with less.prems e True show ?thesis by (rule continue)
  qed
qed


text \<open>
  The entries recorded by the frames of \<open>bt\<close> whose \<^verbatim>\<open>referenced\<close> bit is set: each
  iteration that does not return removes one of them.
\<close>

definition referenced_refs :: "Kernel \<Rightarrow> nat list \<Rightarrow> (pid \<times> nat) set" where
  "referenced_refs k bt = {r \<in> frame_ref k ` set bt. \<exists>e. pte_at k r = Some e \<and> referenced e}"

lemma finite_referenced_refs: "finite (referenced_refs k bt)"
  by (simp add: referenced_refs_def)

lemma card_referenced_refs: "card (referenced_refs k bt) \<le> length bt"
proof -
  have "card (referenced_refs k bt) \<le> card (frame_ref k ` set bt)"
    by (rule card_mono) (auto simp: referenced_refs_def)
  also have "\<dots> \<le> card (set bt)" by (rule card_image_le) simp
  also have "\<dots> \<le> length bt" by (rule card_length)
  finally show ?thesis .
qed

lemma referenced_refs_clear:
  "referenced_refs (clear_referenced r bt h k) bt = referenced_refs k bt - {r}"
  by (auto simp: referenced_refs_def pte_at_clear)

text \<open>
  The process map with every \<^verbatim>\<open>referenced\<close> bit erased: two kernels with the same image
  differ in \<^verbatim>\<open>referenced\<close> bits only, as far as processes go.
\<close>

definition forget_referenced :: "Kernel \<Rightarrow> (pid \<times> Process) list" where
  "forget_referenced k =
     map (\<lambda>e. (fst e,
               (snd e)\<lparr>pageTable := map (\<lambda>pte. pte\<lparr>referenced := False\<rparr>) (pageTable (snd e))\<rparr>))
       (processes k)"

lemma map_update_same: "f y = f (xs ! i) \<Longrightarrow> map f (xs[i := y]) = map f xs"
proof (induction xs arbitrary: i)
  case Nil
  then show ?case by simp
next
  case (Cons x xs)
  then show ?case by (cases i) auto
qed

lemma forget_referenced_clear [simp]:
  "forget_referenced (clear_referenced r bt h k) = forget_referenced k"
proof -
  have "map (\<lambda>e. (fst e, (snd e)\<lparr>pageTable := map (\<lambda>pte. pte\<lparr>referenced := False\<rparr>) (pageTable (snd e))\<rparr>))
          (Map_modify p (\<lambda>pr. pr\<lparr>pageTable := (pageTable pr)[i := (pageTable pr ! i)\<lparr>referenced := False\<rparr>]\<rparr>) ps)
        = map (\<lambda>e. (fst e, (snd e)\<lparr>pageTable := map (\<lambda>pte. pte\<lparr>referenced := False\<rparr>) (pageTable (snd e))\<rparr>)) ps"
    for p i and ps :: "(pid \<times> Process) list"
    by (induction ps) (auto simp: map_update_same)
  then show ?thesis
    by (cases r) (simp add: forget_referenced_def clear_referenced_def update_pte_def)
qed

lemma forget_referenced_replacer [simp]: "forget_referenced (k\<lparr>replacer := x\<rparr>) = forget_referenced k"
  by (simp add: forget_referenced_def)

lemma clock_loop_returns:
  assumes "clock_pre bt h k"
  shows "\<exists>f \<in> set bt. \<exists>k' seen. clock_loop bt h k = (Inr (frame_ref k f), k', seen)"
  using assms
proof (induction rule: clock_loop_induct)
  case (return h k e)
  then show ?case by (auto simp: clock_loop_return clock_pre_def intro!: bexI [of _ "bt ! h"])
next
  case (continue h k e)
  then show ?case by (auto simp: clock_loop_continue)
qed

lemma clock_loop_bound:
  assumes "clock_pre bt h k"
  shows "length (snd (snd (clock_loop bt h k))) \<le> card (referenced_refs k bt) + 1"
  using assms
proof (induction rule: clock_loop_induct)
  case (return h k e)
  then show ?case by (simp add: clock_loop_return)
next
  case (continue h k e)
  let ?r = "frame_ref k (bt ! h)"
  from continue.hyps have "bt ! h \<in> set bt" by (simp add: clock_pre_def)
  with continue.hyps have "?r \<in> referenced_refs k bt"
    by (auto simp: referenced_refs_def)
  then have card: "card (referenced_refs k bt) = Suc (card (referenced_refs k bt - {?r}))"
    by (rule card.remove [OF finite_referenced_refs])
  obtain r k2 seen where loop:
    "clock_loop bt (Suc h mod length bt) (clear_referenced ?r bt h k) = (r, k2, seen)"
    by (rule prod_cases3)
  from continue.IH have "length seen \<le> card (referenced_refs k bt - {?r}) + 1"
    by (simp add: loop referenced_refs_clear)
  moreover have "clock_loop bt h k = (r, k2, (?r, True) # seen)"
    by (simp add: clock_loop_continue [OF continue.hyps] loop)
  ultimately show ?case by (simp add: card)
qed

lemma clock_loop_frame:
  assumes "clock_pre bt h k" and "clock_loop bt h k = (r, k', seen)"
  shows "mmu k' = mmu k \<and> accessStats k' = accessStats k \<and> random k' = random k \<and>
         forget_referenced k' = forget_referenced k \<and>
         (\<exists>h'. replacer k' = ClockReplacer (Some h'))"
  using assms
proof (induction arbitrary: r k' seen rule: clock_loop_induct)
  case (return h k e)
  then show ?case by (auto simp: clock_loop_return)
next
  case (continue h k e)
  from continue.prems continue.hyps obtain seen' where
    "clock_loop bt (Suc h mod length bt) (clear_referenced (frame_ref k (bt ! h)) bt h k) = (r, k', seen')"
    by (auto simp: clock_loop_continue split: prod.splits)
  from continue.IH [OF this] show ?case
    by simp
qed

lemma clock_loop_never_sets:
  assumes "clock_pre bt h k" and "clock_loop bt h k = (r, k', seen)"
    and "pte_at k x = Some e" and "\<not> referenced e"
  shows "\<exists>e'. pte_at k' x = Some e' \<and> \<not> referenced e'"
  using assms
proof (induction arbitrary: r k' seen e rule: clock_loop_induct)
  case (return h k e0)
  then show ?case by (auto simp: clock_loop_return)
next
  case (continue h k e0)
  from continue.prems continue.hyps obtain seen' where
    "clock_loop bt (Suc h mod length bt) (clear_referenced (frame_ref k (bt ! h)) bt h k) = (r, k', seen')"
    by (auto simp: clock_loop_continue split: prod.splits)
  moreover from continue.prems obtain e1 where
    "pte_at (clear_referenced (frame_ref k (bt ! h)) bt h k) x = Some e1" "\<not> referenced e1"
    by (cases "x = frame_ref k (bt ! h)") (auto simp: pte_at_clear)
  ultimately show ?case by (rule continue.IH)
qed

lemma clock_loop_cleared:
  assumes "clock_pre bt h k" and "clock_loop bt h k = (r, k', seen)"
  shows "(\<forall>x \<in> set seen. \<exists>e'. pte_at k' (fst x) = Some e' \<and> \<not> referenced e') \<and>
         (\<exists>x. r = Inr x \<and> seen \<noteq> [] \<and> last seen = (x, False))"
  using assms
proof (induction arbitrary: r k' seen rule: clock_loop_induct)
  case (return h k e)
  then show ?case by (auto simp: clock_loop_return)
next
  case (continue h k e)
  let ?k2 = "clear_referenced (frame_ref k (bt ! h)) bt h k"
  from continue.prems continue.hyps obtain seen' where
    loop: "clock_loop bt (Suc h mod length bt) ?k2 = (r, k', seen')"
    and seen: "seen = (frame_ref k (bt ! h), True) # seen'"
    by (auto simp: clock_loop_continue split: prod.splits)
  from continue.hyps(1) have pre2: "clock_pre bt (Suc h mod length bt) ?k2"
    by (rule clock_pre_clear)
  from continue.hyps obtain e1 where
    "pte_at ?k2 (frame_ref k (bt ! h)) = Some e1" "\<not> referenced e1"
    by (auto simp: pte_at_clear)
  with pre2 loop have here: "\<exists>e'. pte_at k' (frame_ref k (bt ! h)) = Some e' \<and> \<not> referenced e'"
    by (rule clock_loop_never_sets)
  note ih = continue.IH [OF loop]
  from ih have rest: "\<forall>x \<in> set seen'. \<exists>e'. pte_at k' (fst x) = Some e' \<and> \<not> referenced e'"
    by (rule conjunct1)
  from ih have "\<exists>x. r = Inr x \<and> seen' \<noteq> [] \<and> last seen' = (x, False)"
    by (rule conjunct2)
  then obtain x where ret: "r = Inr x" "seen' \<noteq> []" "last seen' = (x, False)"
    by blast
  from here rest have "\<forall>x \<in> set seen. \<exists>e'. pte_at k' (fst x) = Some e' \<and> \<not> referenced e'"
    by (simp add: seen)
  moreover from ret have "r = Inr x \<and> seen \<noteq> [] \<and> last seen = (x, False)"
    by (simp add: seen)
  ultimately show ?case by blast
qed


lemma map_of_map_snd: "map_of (map (\<lambda>e. (fst e, g (snd e))) ps) p = map_option g (map_of ps p)"
  by (induction ps) auto

lemma map_of_forget:
  "map_of (forget_referenced k) p =
     map_option (\<lambda>pr. pr\<lparr>pageTable := map (\<lambda>pte. pte\<lparr>referenced := False\<rparr>) (pageTable pr)\<rparr>)
       (map_of (processes k) p)"
  using map_of_map_snd
    [of "\<lambda>pr. pr\<lparr>pageTable := map (\<lambda>pte. pte\<lparr>referenced := False\<rparr>) (pageTable pr)\<rparr>"
        "processes k" p]
  by (simp add: forget_referenced_def)

lemma pte_at_forget:
  assumes "forget_referenced k' = forget_referenced k"
  shows "rel_option (\<lambda>e e'. e'\<lparr>referenced := False\<rparr> = e\<lparr>referenced := False\<rparr>)
           (pte_at k x) (pte_at k' x)"
proof -
  let ?g = "\<lambda>pr. pr\<lparr>pageTable := map (\<lambda>pte. pte\<lparr>referenced := False\<rparr>) (pageTable pr)\<rparr>"
  from assms have eq: "map_option ?g (map_of (processes k') (fst x)) =
                       map_option ?g (map_of (processes k) (fst x))"
    by (simp flip: map_of_forget)
  show ?thesis
  proof (cases "map_of (processes k) (fst x)")
    case None
    with eq show ?thesis by (simp add: pte_at_def)
  next
    case (Some pr)
    with eq obtain pr' where pr': "map_of (processes k') (fst x) = Some pr'" and "?g pr' = ?g pr"
      by auto
    then have "pageTable (?g pr') = pageTable (?g pr)" by simp
    then have m: "map (\<lambda>pte. pte\<lparr>referenced := False\<rparr>) (pageTable pr') =
                  map (\<lambda>pte. pte\<lparr>referenced := False\<rparr>) (pageTable pr)"
      by simp
    then have len: "length (pageTable pr') = length (pageTable pr)"
      by (rule map_eq_imp_length_eq)
    show ?thesis
    proof (cases "snd x < length (pageTable pr)")
      case True
      from m have "map (\<lambda>pte. pte\<lparr>referenced := False\<rparr>) (pageTable pr') ! snd x =
                   map (\<lambda>pte. pte\<lparr>referenced := False\<rparr>) (pageTable pr) ! snd x"
        by simp
      with True len show ?thesis by (simp add: pte_at_def Some pr')
    next
      case False
      with len show ?thesis by (simp add: pte_at_def Some pr')
    qed
  qed
qed

lemma pte_at_forget_fields:
  assumes "forget_referenced k' = forget_referenced k" and "pte_at k x = Some e"
  shows "\<exists>e'. pte_at k' x = Some e' \<and> presented e' = presented e \<and> modified e' = modified e \<and>
              frame e' = frame e \<and> pte_fid e' = pte_fid e"
proof -
  from pte_at_forget [OF assms(1), of x] assms(2) obtain e' where
    e': "pte_at k' x = Some e'" and eq: "e'\<lparr>referenced := False\<rparr> = e\<lparr>referenced := False\<rparr>"
    by (cases "pte_at k' x") auto
  from eq have "presented (e'\<lparr>referenced := False\<rparr>) = presented (e\<lparr>referenced := False\<rparr>)"
    and "modified (e'\<lparr>referenced := False\<rparr>) = modified (e\<lparr>referenced := False\<rparr>)"
    and "frame (e'\<lparr>referenced := False\<rparr>) = frame (e\<lparr>referenced := False\<rparr>)"
    and "pte_fid (e'\<lparr>referenced := False\<rparr>) = pte_fid (e\<lparr>referenced := False\<rparr>)"
    by simp_all
  with e' show ?thesis by simp
qed

text \<open>
  The precondition of the claims about \<^verbatim>\<open>replace\<close>: every busy frame exists and the
  \<open>(pid, page)\<close> it records resolves to an entry of a live process.
\<close>

definition busy_resolves :: "Kernel \<Rightarrow> bool" where
  "busy_resolves k =
     (\<forall>f \<in> set (busyTable (mmu k)).
        f < length (frameTable (mmu k)) \<and> pte_at k (frame_ref k f) \<noteq> None)"

lemma clock_pre_start:
  assumes "busyTable (mmu k) \<noteq> []" and "busy_resolves k"
  shows "clock_pre (busyTable (mmu k)) (min h0 (length (busyTable (mmu k)) - 1)) k"
  using assms by (cases "busyTable (mmu k)") (auto simp: clock_pre_def busy_resolves_def)

text \<open>
  A kernel with two frames, both busy and held by pages 0 and 1 of process 1000, both
  \<^verbatim>\<open>referenced\<close>, and the hand at 0.
\<close>

definition example_process :: Process where
  "example_process =
     \<lparr>pid = 1000,
      pageTable =
        [new_PageTableEntry\<lparr>presented := True, referenced := True, frame := Some 0\<rparr>,
         new_PageTableEntry\<lparr>presented := True, referenced := True, frame := Some 1\<rparr>,
         new_PageTableEntry],
      ttl = 2, idleSet = [0, 2], workingSet = [1], workingSetTtl = 128, counter = 0\<rparr>"

definition example_kernel :: Kernel where
  "example_kernel =
     \<lparr>replacer = ClockReplacer (Some 0),
      processes = [(1000, example_process)],
      mmu = \<lparr>frameTable = [\<lparr>fid = 0, busy = True, frame_pid = 1000, frame_page = 0\<rparr>,
                           \<lparr>fid = 1, busy = True, frame_pid = 1000, frame_page = 1\<rparr>],
             busyTable = [0, 1], freeTable = []\<rparr>,
      accessStats = \<lparr>total = 0, faults = 0, replaced = 0\<rparr>,
      random = sconst 0\<rparr>"

lemma busy_resolves_example: "busy_resolves example_kernel"
  by (simp add: busy_resolves_def example_kernel_def example_process_def pte_at_def frame_ref_def)

lemma busyTable_example: "busyTable (mmu example_kernel) = [0, 1]"
  by (simp add: example_kernel_def)

text \<open>
  Claim C3. When the busy set is not empty and every busy frame resolves to an entry of a
  live process, \<^verbatim>\<open>replace()\<close> of the clock replacer returns an entry, whatever the hand
  and the \<^verbatim>\<open>referenced\<close> bits are, after at most \<open>2 * |busy|\<close> inspections. (The loop is
  a total function: its termination is proved with its definition.)
\<close>

theorem clock_replace_progress:
  assumes "busyTable (mmu k) \<noteq> []" and "busy_resolves k"
  shows "\<exists>x k' seen. ClockReplacer_replace (Some h0) k = (Inr x, k', seen) \<and>
           pte_at k' x \<noteq> None \<and> length seen \<le> 2 * length (busyTable (mmu k))"
proof -
  let ?bt = "busyTable (mmu k)"
  let ?h = "min h0 (length ?bt - 1)"
  have pre: "clock_pre ?bt ?h k" using assms by (rule clock_pre_start)
  obtain r k' seen where loop: "clock_loop ?bt ?h k = (r, k', seen)"
    by (rule prod_cases3)
  from clock_loop_cleared [OF pre loop] obtain x where x: "r = Inr x" "seen \<noteq> []" "last seen = (x, False)"
    and all: "\<forall>y \<in> set seen. \<exists>e'. pte_at k' (fst y) = Some e' \<and> \<not> referenced e'"
    by blast
  from x have "(x, False) \<in> set seen" using last_in_set [of seen] by simp
  with all have "pte_at k' x \<noteq> None" by force
  moreover have "length seen \<le> 2 * length ?bt"
  proof -
    from clock_loop_bound [OF pre] loop have "length seen \<le> card (referenced_refs k ?bt) + 1"
      by simp
    also have "\<dots> \<le> length ?bt + 1" using card_referenced_refs [of k ?bt] by simp
    also from assms(1) have "\<dots> \<le> 2 * length ?bt" by (cases ?bt) simp_all
    finally show ?thesis .
  qed
  ultimately show ?thesis
    using assms(1) x loop by (simp add: ClockReplacer_replace_def Let_def)
qed

theorem clock_replace_progress_witness:
  "\<exists>x k' seen. ClockReplacer_replace (Some 0) example_kernel = (Inr x, k', seen) \<and>
     pte_at k' x \<noteq> None \<and> length seen \<le> 4"
  using clock_replace_progress [of example_kernel 0] busy_resolves_example
  by (simp add: busyTable_example)

text \<open>
  Claim C7. Under the same precondition, after \<^verbatim>\<open>replace()\<close> of the clock replacer every
  entry that was inspected and found \<^verbatim>\<open>referenced\<close> has the bit clear, the returned entry
  has the bit clear, the MMU (hence every frame) is unchanged, and \<^verbatim>\<open>presented\<close>,
  \<^verbatim>\<open>modified\<close> and \<^verbatim>\<open>frame\<close> of every entry are unchanged.
\<close>

theorem clock_replace_reference_bits:
  assumes "busyTable (mmu k) \<noteq> []" and "busy_resolves k"
    and "ClockReplacer_replace (Some h0) k = (r, k', seen)"
  shows "(\<forall>y \<in> set seen. snd y \<longrightarrow> (\<exists>e. pte_at k' (fst y) = Some e \<and> \<not> referenced e)) \<and>
         (\<exists>x e. r = Inr x \<and> pte_at k' x = Some e \<and> \<not> referenced e) \<and>
         mmu k' = mmu k \<and>
         (\<forall>x e. pte_at k x = Some e \<longrightarrow>
            (\<exists>e'. pte_at k' x = Some e' \<and> presented e' = presented e \<and>
                  modified e' = modified e \<and> frame e' = frame e))"
proof -
  let ?bt = "busyTable (mmu k)"
  let ?h = "min h0 (length ?bt - 1)"
  have pre: "clock_pre ?bt ?h k" using assms(1,2) by (rule clock_pre_start)
  from assms(1,3) have loop: "clock_loop ?bt ?h k = (r, k', seen)"
    by (simp add: ClockReplacer_replace_def Let_def)
  from clock_loop_cleared [OF pre loop] obtain x where x: "r = Inr x" "seen \<noteq> []" "last seen = (x, False)"
    and all: "\<forall>y \<in> set seen. \<exists>e'. pte_at k' (fst y) = Some e' \<and> \<not> referenced e'"
    by blast
  from x have "(x, False) \<in> set seen" using last_in_set [of seen] by simp
  with all have "\<exists>e. pte_at k' x = Some e \<and> \<not> referenced e" by force
  with x have ret: "\<exists>x e. r = Inr x \<and> pte_at k' x = Some e \<and> \<not> referenced e" by blast
  from clock_loop_frame [OF pre loop] have m: "mmu k' = mmu k"
    and fr: "forget_referenced k' = forget_referenced k" by simp_all
  from fr have "\<forall>x e. pte_at k x = Some e \<longrightarrow>
            (\<exists>e'. pte_at k' x = Some e' \<and> presented e' = presented e \<and>
                  modified e' = modified e \<and> frame e' = frame e)"
    using pte_at_forget_fields by blast
  with all ret m show ?thesis by blast
qed

text \<open>
  The run on the example: page 0 and page 1 lose their bit, the third inspection returns
  page 0.
\<close>

lemma clock_second_chance:
  "ClockReplacer_replace (Some 0) example_kernel =
     (Inr (1000, 0),
      example_kernel
        \<lparr>replacer := ClockReplacer (Some 1),
         processes :=
           [(1000, example_process
              \<lparr>pageTable :=
                 [new_PageTableEntry\<lparr>presented := True, frame := Some 0\<rparr>,
                  new_PageTableEntry\<lparr>presented := True, frame := Some 1\<rparr>,
                  new_PageTableEntry]\<rparr>)]\<rparr>,
      [((1000, 0), True), ((1000, 1), True), ((1000, 0), False)])"
  by (simp add: ClockReplacer_replace_def Let_def clock_loop.simps example_kernel_def
      example_process_def MMU_get_def update_pte_def new_PageTableEntry_def)

theorem clock_replace_reference_bits_witness:
  "mmu (fst (snd (ClockReplacer_replace (Some 0) example_kernel))) = mmu example_kernel \<and>
   (\<exists>e. pte_at (fst (snd (ClockReplacer_replace (Some 0) example_kernel))) (1000, 1) = Some e \<and>
        \<not> referenced e)"
proof -
  have "busyTable (mmu example_kernel) \<noteq> []" by (simp add: busyTable_example)
  from clock_replace_reference_bits [OF this busy_resolves_example clock_second_chance]
  show ?thesis by (simp add: clock_second_chance)
qed

section \<open>Termination of a process\<close>

text \<open>
  The frame ids that the loop of \<^verbatim>\<open>#terminateProcess\<close> passes to \<^verbatim>\<open>free\<close>: the \<^verbatim>\<open>frame\<close> of
  each entry that is \<^verbatim>\<open>presented\<close>.
\<close>

definition freed :: "PageTableEntry list \<Rightarrow> nat set" where
  "freed ptes = {f. \<exists>pte \<in> set ptes. presented pte \<and> frame pte = Some f}"

lemma freed_Nil [simp]: "freed [] = {}"
  by (simp add: freed_def)

lemma freed_Cons:
  "freed (pte # ptes) =
     (if presented pte then (case frame pte of None \<Rightarrow> {} | Some f \<Rightarrow> {f}) else {}) \<union> freed ptes"
  by (auto simp: freed_def split: option.splits)

lemma MMU_free_busy:
  assumes "f \<in> set (busyTable m)" and "f < length (frameTable m)"
  shows "MMU_free f m =
           (Inr True,
            m\<lparr>frameTable :=
                 (frameTable m)[f := (frameTable m ! f)\<lparr>busy := False, frame_pid := 0, frame_page := 0\<rparr>],
               busyTable := removeAll f (busyTable m),
               freeTable := freeTable m @ [f]\<rparr>)"
  using assms by (simp add: MMU_free_def MMU_get_def Set_delete_def)

lemma MMU_free_not_busy: "f \<notin> set (busyTable m) \<Longrightarrow> MMU_free f m = (Inr False, m)"
  by (simp add: MMU_free_def)

lemma free_loop_ok:
  assumes "\<forall>f \<in> freed ptes \<inter> set (busyTable m). f < length (frameTable m)"
  shows "\<exists>m'. free_loop ptes m = (Inr (), m') \<and>
           busyTable m' = filter (\<lambda>f. f \<notin> freed ptes) (busyTable m) \<and>
           length (frameTable m') = length (frameTable m) \<and>
           (\<forall>f. f \<notin> freed ptes \<longrightarrow> frameTable m' ! f = frameTable m ! f) \<and>
           set (freeTable m') \<subseteq> set (freeTable m) \<union> (freed ptes \<inter> set (busyTable m)) \<and>
           (m' = m \<or> freeTable m' \<noteq> [])"
  using assms
proof (induction ptes arbitrary: m)
  case Nil
  then show ?case by simp
next
  case (Cons pte ptes)
  show ?case
  proof (cases "presented pte \<and> (\<exists>f. frame pte = Some f \<and> f \<in> set (busyTable m))")
    case True
    then obtain f where f: "presented pte" "frame pte = Some f" "f \<in> set (busyTable m)"
      by blast
    with Cons.prems have flt: "f < length (frameTable m)"
      by (auto simp: freed_Cons)
    let ?m1 = "m\<lparr>frameTable :=
                   (frameTable m)[f := (frameTable m ! f)\<lparr>busy := False, frame_pid := 0, frame_page := 0\<rparr>],
                 busyTable := removeAll f (busyTable m),
                 freeTable := freeTable m @ [f]\<rparr>"
    have step: "MMU_free f m = (Inr True, ?m1)"
      using f(3) flt by (rule MMU_free_busy)
    have "\<forall>g \<in> freed ptes \<inter> set (busyTable ?m1). g < length (frameTable ?m1)"
      using Cons.prems by (auto simp: freed_Cons)
    from Cons.IH [OF this] obtain m' where m': "free_loop ptes ?m1 = (Inr (), m')"
      and b: "busyTable m' = filter (\<lambda>g. g \<notin> freed ptes) (busyTable ?m1)"
      and l: "length (frameTable m') = length (frameTable ?m1)"
      and u: "\<forall>g. g \<notin> freed ptes \<longrightarrow> frameTable m' ! g = frameTable ?m1 ! g"
      and s: "set (freeTable m') \<subseteq> set (freeTable ?m1) \<union> (freed ptes \<inter> set (busyTable ?m1))"
      and n: "m' = ?m1 \<or> freeTable m' \<noteq> []"
      by blast
    have 1: "free_loop (pte # ptes) m = (Inr (), m')"
      using f step m' by simp
    have 2: "busyTable m' = filter (\<lambda>g. g \<notin> freed (pte # ptes)) (busyTable m)"
    proof -
      have "filter (\<lambda>g. g \<notin> freed ptes) (removeAll f (busyTable m)) =
            filter (\<lambda>g. g \<notin> freed (pte # ptes)) (busyTable m)"
        using f(1,2) unfolding removeAll_filter_not_eq filter_filter
        by (intro filter_cong) (auto simp: freed_Cons)
      with b show ?thesis by simp
    qed
    have 3: "length (frameTable m') = length (frameTable m)"
      using l by simp
    have 4: "\<forall>g. g \<notin> freed (pte # ptes) \<longrightarrow> frameTable m' ! g = frameTable m ! g"
      using u f by (auto simp: freed_Cons)
    have 5: "set (freeTable m') \<subseteq> set (freeTable m) \<union> (freed (pte # ptes) \<inter> set (busyTable m))"
      using s f by (auto simp: freed_Cons)
    have 6: "m' = m \<or> freeTable m' \<noteq> []"
    proof (cases "m' = ?m1")
      case True
      then show ?thesis by simp
    next
      case False
      with n show ?thesis by simp
    qed
    from 1 2 3 4 5 6 show ?thesis by blast
  next
    case False
    then have skip: "free_loop (pte # ptes) m = free_loop ptes m"
      by (auto simp: MMU_free_not_busy split: option.splits)
    have "\<forall>g \<in> freed ptes \<inter> set (busyTable m). g < length (frameTable m)"
      using Cons.prems by (auto simp: freed_Cons)
    from Cons.IH [OF this] obtain m' where m': "free_loop ptes m = (Inr (), m')"
      and b: "busyTable m' = filter (\<lambda>g. g \<notin> freed ptes) (busyTable m)"
      and l: "length (frameTable m') = length (frameTable m)"
      and u: "\<forall>g. g \<notin> freed ptes \<longrightarrow> frameTable m' ! g = frameTable m ! g"
      and s: "set (freeTable m') \<subseteq> set (freeTable m) \<union> (freed ptes \<inter> set (busyTable m))"
      and n: "m' = m \<or> freeTable m' \<noteq> []"
      by blast
    have 2: "busyTable m' = filter (\<lambda>g. g \<notin> freed (pte # ptes)) (busyTable m)"
    proof -
      have "filter (\<lambda>g. g \<notin> freed (pte # ptes)) (busyTable m) =
            filter (\<lambda>g. g \<notin> freed ptes) (busyTable m)"
        using False by (intro filter_cong) (auto simp: freed_Cons split: option.splits)
      with b show ?thesis by simp
    qed
    have 4: "\<forall>g. g \<notin> freed (pte # ptes) \<longrightarrow> frameTable m' ! g = frameTable m ! g"
      using u by (auto simp: freed_Cons)
    have 5: "set (freeTable m') \<subseteq> set (freeTable m) \<union> (freed (pte # ptes) \<inter> set (busyTable m))"
      using s by (auto simp: freed_Cons)
    from skip m' 2 l 4 5 n show ?thesis by auto
  qed
qed


lemma map_of_Map_delete: "map_of (Map_delete p ps) q = (if q = p then None else map_of ps q)"
  by (induction ps) (auto simp: Map_delete_def)

text \<open>
  The residency bijection for one process: the process is live; each of its resident
  entries names a busy frame that exists and records the pid and the index of the entry;
  and each busy frame that records the pid records an index whose entry is resident in
  that frame.
\<close>

definition residency_bijection :: "pid \<Rightarrow> Kernel \<Rightarrow> bool" where
  "residency_bijection p k =
     (case map_of (processes k) p of
        None \<Rightarrow> False
      | Some process \<Rightarrow>
          (\<forall>i \<in> set [0..<length (pageTable process)].
             presented (pageTable process ! i) \<longrightarrow>
               (case frame (pageTable process ! i) of
                  None \<Rightarrow> False
                | Some f \<Rightarrow>
                    f \<in> set (busyTable (mmu k)) \<and> f < length (frameTable (mmu k)) \<and>
                    frame_ref k f = (p, i))) \<and>
          (\<forall>f \<in> set (busyTable (mmu k)).
             f < length (frameTable (mmu k)) \<and> fst (frame_ref k f) = p \<longrightarrow>
               snd (frame_ref k f) < length (pageTable process) \<and>
               presented (pageTable process ! snd (frame_ref k f)) \<and>
               frame (pageTable process ! snd (frame_ref k f)) = Some f))"

text \<open>
  Claim C2. In a kernel state with the residency bijection for \<open>pid\<close>,
  \<^verbatim>\<open>terminate_process(pid)\<close> returns normally, \<open>pid\<close> is no longer a key of the process
  map, and no frame of the busy set has \<open>pid\<close> in its pid field.
\<close>

theorem terminate_frees_frames:
  assumes "residency_bijection p k"
  shows "\<exists>k'. Kernel_terminateProcess p k = (Inr (), k') \<and>
           map_of (processes k') p = None \<and>
           (\<forall>f \<in> set (busyTable (mmu k')).
              f < length (frameTable (mmu k')) \<longrightarrow> frame_pid (frameTable (mmu k') ! f) \<noteq> p)"
proof -
  from assms obtain process where live: "map_of (processes k) p = Some process"
    by (auto simp: residency_bijection_def split: option.splits)
  let ?pt = "pageTable process"
  let ?m = "mmu k"
  from assms live have fwd: "\<forall>i < length ?pt. presented (?pt ! i) \<longrightarrow>
      (\<exists>f. frame (?pt ! i) = Some f \<and> f < length (frameTable ?m))"
    by (auto simp: residency_bijection_def split: option.splits)
  from assms live have bwd: "\<forall>f \<in> set (busyTable ?m).
      f < length (frameTable ?m) \<and> frame_pid (frameTable ?m ! f) = p \<longrightarrow>
        snd (frame_ref k f) < length ?pt \<and> presented (?pt ! snd (frame_ref k f)) \<and>
        frame (?pt ! snd (frame_ref k f)) = Some f"
    by (simp add: residency_bijection_def frame_ref_def)
  have "\<forall>f \<in> freed ?pt \<inter> set (busyTable ?m). f < length (frameTable ?m)"
    using fwd by (fastforce simp: freed_def in_set_conv_nth)
  from free_loop_ok [OF this] obtain m' where m': "free_loop ?pt ?m = (Inr (), m')"
    and b: "busyTable m' = filter (\<lambda>f. f \<notin> freed ?pt) (busyTable ?m)"
    and l: "length (frameTable m') = length (frameTable ?m)"
    and u: "\<forall>f. f \<notin> freed ?pt \<longrightarrow> frameTable m' ! f = frameTable ?m ! f"
    by blast
  let ?k' = "k\<lparr>mmu := m', processes := Map_delete p (processes k)\<rparr>"
  have 1: "Kernel_terminateProcess p k = (Inr (), ?k')"
    by (simp add: Kernel_terminateProcess_def live m')
  have 2: "map_of (processes ?k') p = None"
    by (simp add: map_of_Map_delete)
  have 3: "frame_pid (frameTable m' ! f) \<noteq> p"
    if f: "f \<in> set (busyTable m')" "f < length (frameTable m')" for f
  proof
    assume p: "frame_pid (frameTable m' ! f) = p"
    from f(1) b have fb: "f \<in> set (busyTable ?m)" and nf: "f \<notin> freed ?pt" by simp_all
    from nf u have same: "frameTable m' ! f = frameTable ?m ! f" by simp
    with bwd fb f(2) l p have "snd (frame_ref k f) < length ?pt"
      and "presented (?pt ! snd (frame_ref k f))"
      and "frame (?pt ! snd (frame_ref k f)) = Some f"
      by simp_all
    then have "f \<in> freed ?pt"
      unfolding freed_def using nth_mem [of "snd (frame_ref k f)" ?pt] by blast
    with nf show False ..
  qed
  from 1 2 3 show ?thesis by (intro exI [of _ ?k']) simp
qed

lemma residency_bijection_example: "residency_bijection 1000 example_kernel"
  by (simp add: residency_bijection_def example_kernel_def example_process_def frame_ref_def
      new_PageTableEntry_def)

theorem terminate_frees_frames_witness:
  "\<exists>k'. Kernel_terminateProcess 1000 example_kernel = (Inr (), k') \<and>
     map_of (processes k') 1000 = None \<and>
     (\<forall>f \<in> set (busyTable (mmu k')).
        f < length (frameTable (mmu k')) \<longrightarrow> frame_pid (frameTable (mmu k') ! f) \<noteq> 1000)"
  using terminate_frees_frames [OF residency_bijection_example] .

text \<open>On the example both frames return to the free list and the map is empty.\<close>

lemma terminate_example:
  "Kernel_terminateProcess 1000 example_kernel =
     (Inr (),
      example_kernel
        \<lparr>mmu := \<lparr>frameTable = [new_Frame 0, new_Frame 1], busyTable = [], freeTable = [0, 1]\<rparr>,
         processes := []\<rparr>)"
  by (simp add: Kernel_terminateProcess_def example_kernel_def example_process_def
      MMU_free_def MMU_get_def Set_delete_def Map_delete_def new_Frame_def new_PageTableEntry_def)

section \<open>The kernel invariant\<close>

text \<open>
  \<open>frame_bound k f\<close>: the entry that frame \<open>f\<close> records exists, is \<^verbatim>\<open>presented\<close> and
  names \<open>f\<close> as its frame. The invariant of the kernel state: the key of each process is
  its pid; each fid of the free list is an index of the frame table; when the free list is
  empty the busy set is not; each busy fid is an index of the frame table and its frame is
  bound; the replacer is one of the two replacers of the program, and the hand of the clock
  is a number. \<open>inv_except (Some f)\<close> leaves out the
  binding of the one frame \<open>f\<close>, which the page-fault handler is about to restore.
\<close>

definition frame_bound :: "Kernel \<Rightarrow> nat \<Rightarrow> bool" where
  "frame_bound k f =
     (case pte_at k (frame_ref k f) of
        None \<Rightarrow> False
      | Some e \<Rightarrow> presented e \<and> frame e = Some f)"

definition inv_except :: "nat option \<Rightarrow> Kernel \<Rightarrow> bool" where
  "inv_except x k =
     ((\<forall>e \<in> set (processes k). pid (snd e) = fst e) \<and>
      (\<forall>f \<in> set (freeTable (mmu k)). f < length (frameTable (mmu k))) \<and>
      (freeTable (mmu k) = [] \<longrightarrow> busyTable (mmu k) \<noteq> []) \<and>
      (\<forall>f \<in> set (busyTable (mmu k)).
         f < length (frameTable (mmu k)) \<and> (Some f \<noteq> x \<longrightarrow> frame_bound k f)) \<and>
      replacer k \<noteq> ClockReplacer None \<and> replacer k \<noteq> KernelItself)"

definition kernel_inv :: "Kernel \<Rightarrow> bool" where
  "kernel_inv k = inv_except None k"

lemma kernel_inv_busy_resolves: "kernel_inv k \<Longrightarrow> busy_resolves k"
  by (auto simp: kernel_inv_def inv_except_def busy_resolves_def frame_bound_def
      split: option.splits)

text \<open>The keys of the process map with the pid stored in each process.\<close>

definition key_pids :: "Kernel \<Rightarrow> (pid \<times> pid) list" where
  "key_pids k = map (\<lambda>e. (fst e, pid (snd e))) (processes k)"

lemma key_pids_forget: "key_pids k = map (\<lambda>e. (fst e, pid (snd e))) (forget_referenced k)"
  by (simp add: key_pids_def forget_referenced_def)

lemma keys_ok_iff: "(\<forall>e \<in> set (processes k). pid (snd e) = fst e) = (\<forall>x \<in> set (key_pids k). snd x = fst x)"
  by (auto simp: key_pids_def)

lemma frame_bound_forget:
  assumes "forget_referenced k' = forget_referenced k" and "mmu k' = mmu k" and "frame_bound k f"
  shows "frame_bound k' f"
proof -
  from assms(3) obtain e where e: "pte_at k (frame_ref k f) = Some e" "presented e" "frame e = Some f"
    by (auto simp: frame_bound_def split: option.splits)
  from pte_at_forget_fields [OF assms(1) e(1)] e(2,3) assms(2)
  show ?thesis by (auto simp: frame_bound_def frame_ref_def)
qed

lemma kernel_inv_forget:
  assumes "forget_referenced k' = forget_referenced k" and "mmu k' = mmu k"
    and "replacer k' \<noteq> ClockReplacer None \<and> replacer k' \<noteq> KernelItself" and "kernel_inv k"
  shows "kernel_inv k'"
proof -
  from assms(1) have "key_pids k' = key_pids k" by (simp add: key_pids_forget)
  with assms(4) have "\<forall>e \<in> set (processes k'). pid (snd e) = fst e"
    by (simp add: keys_ok_iff kernel_inv_def inv_except_def)
  moreover have "\<forall>f \<in> set (busyTable (mmu k')). f < length (frameTable (mmu k')) \<and> frame_bound k' f"
    using assms(4) frame_bound_forget [OF assms(1,2)]
    by (auto simp: kernel_inv_def inv_except_def assms(2))
  ultimately show ?thesis
    using assms(2,3,4) by (simp add: kernel_inv_def inv_except_def)
qed

text \<open>
  Under the invariant and with a busy frame, either replacement policy returns the entry
  recorded by a busy frame, changes \<^verbatim>\<open>referenced\<close> bits at most, and keeps the invariant.
\<close>

lemma Kernel_replace_ok:
  assumes "kernel_inv k" and "busyTable (mmu k) \<noteq> []"
  shows "\<exists>f \<in> set (busyTable (mmu k)). \<exists>k'.
           Kernel_replace k = (Inr (frame_ref k f), k') \<and> mmu k' = mmu k \<and>
           forget_referenced k' = forget_referenced k \<and> accessStats k' = accessStats k \<and>
           kernel_inv k'"
proof (cases "replacer k")
  case (ClockReplacer hand)
  with assms(1) obtain h0 where hand: "hand = Some h0"
    by (cases hand) (auto simp: kernel_inv_def inv_except_def)
  let ?bt = "busyTable (mmu k)"
  let ?h = "min h0 (length ?bt - 1)"
  have pre: "clock_pre ?bt ?h k"
    using assms(2) kernel_inv_busy_resolves [OF assms(1)] by (rule clock_pre_start)
  from clock_loop_returns [OF pre] obtain f k' seen where f: "f \<in> set ?bt"
    and loop: "clock_loop ?bt ?h k = (Inr (frame_ref k f), k', seen)"
    by blast
  from clock_loop_frame [OF pre loop] have fr: "mmu k' = mmu k" "accessStats k' = accessStats k"
    "forget_referenced k' = forget_referenced k" "\<exists>h'. replacer k' = ClockReplacer (Some h')"
    by simp_all
  from fr(4) have "replacer k' \<noteq> ClockReplacer None \<and> replacer k' \<noteq> KernelItself" by auto
  with fr(3,1) have "kernel_inv k'" using assms(1) by (rule kernel_inv_forget)
  moreover have "Kernel_replace k = (Inr (frame_ref k f), k')"
    using assms(2) loop by (simp add: Kernel_replace_def ClockReplacer hand ClockReplacer_replace_def Let_def)
  ultimately show ?thesis using f fr by blast
next
  case RandomReplacer
  let ?bt = "busyTable (mmu k)"
  from choose_arr_nonempty [OF assms(2), of "random k"] obtain f rs where f: "f \<in> set ?bt"
    and ch: "choose_arr ?bt (random k) = (Some f, rs)"
    by (cases "choose_arr ?bt (random k)") auto
  let ?k' = "k\<lparr>random := rs\<rparr>"
  from assms(1) f have flt: "f < length (frameTable (mmu k))" and fb: "frame_bound k f"
    by (auto simp: kernel_inv_def inv_except_def)
  from fb obtain process where "map_of (processes k) (frame_pid (frameTable (mmu k) ! f)) = Some process"
    by (auto simp: frame_bound_def pte_at_def frame_ref_def split: option.splits)
  with ch flt have "Kernel_replace k = (Inr (frame_ref k f), ?k')"
    by (simp add: Kernel_replace_def RandomReplacer RandomReplacer_replace_def MMU_get_def
        frame_ref_def Let_def)
  moreover have "forget_referenced ?k' = forget_referenced k"
    by (simp add: forget_referenced_def)
  moreover from this have "kernel_inv ?k'"
    using assms(1) by (intro kernel_inv_forget [of ?k' k]) (simp_all add: RandomReplacer)
  ultimately show ?thesis using f by (intro bexI [of _ f] exI [of _ ?k']) simp_all
next
  case KernelItself
  with assms(1) show ?thesis by (simp add: kernel_inv_def inv_except_def)
qed


lemma pte_at_cong: "processes k' = processes k \<Longrightarrow> pte_at k' r = pte_at k r"
  by (simp add: pte_at_def)

lemma frame_ref_cong: "mmu k' = mmu k \<Longrightarrow> frame_ref k' f = frame_ref k f"
  by (simp add: frame_ref_def)

lemma frame_bound_cong:
  "processes k' = processes k \<Longrightarrow> mmu k' = mmu k \<Longrightarrow> frame_bound k' f = frame_bound k f"
  by (simp add: frame_bound_def pte_at_def frame_ref_def)

lemma inv_except_cong:
  "processes k' = processes k \<Longrightarrow> mmu k' = mmu k \<Longrightarrow> replacer k' = replacer k \<Longrightarrow>
   inv_except x k' = inv_except x k"
  by (simp add: inv_except_def frame_bound_def pte_at_def frame_ref_def)

lemma kernel_inv_cong:
  "processes k' = processes k \<Longrightarrow> mmu k' = mmu k \<Longrightarrow> replacer k' = replacer k \<Longrightarrow>
   kernel_inv k' = kernel_inv k"
  by (simp add: kernel_inv_def inv_except_def frame_bound_def pte_at_def frame_ref_def)

lemma key_pids_mmu [simp]: "key_pids (k\<lparr>mmu := m\<rparr>) = key_pids k"
  by (simp add: key_pids_def)

lemma key_pids_update_pte [simp]: "key_pids (update_pte r g k) = key_pids k"
proof -
  have "map (\<lambda>e. (fst e, pid (snd e))) (Map_modify p h ps) = map (\<lambda>e. (fst e, pid (snd e))) ps"
    if "\<And>pr. pid (h pr) = pid pr" for p h and ps :: "(pid \<times> Process) list"
    using that by (induction ps) auto
  then show ?thesis by (simp add: key_pids_def update_pte_def)
qed

lemma frame_ref_update_pte [simp]: "frame_ref (update_pte r g k) f = frame_ref k f"
  by (simp add: frame_ref_def)

subsection \<open>The page-fault handler\<close>

text \<open>
  The handler in three steps: \<^verbatim>\<open>alloc\<close> of a free frame, or \<^verbatim>\<open>realloc\<close> of the victim's
  frame with the victim cleared, leaves every frame but the new one bound; binding the
  faulting entry to the frame restores the invariant.
\<close>

lemma inv_bind:
  assumes inv: "inv_except (Some f) k" and f: "f \<in> set (busyTable (mmu k))"
    and ref: "frame_ref k f = (p, pg)" and e: "pte_at k (p, pg) = Some e" "\<not> presented e"
  shows "kernel_inv (update_pte (p, pg) (\<lambda>pte. pte\<lparr>presented := True, frame := Some f\<rparr>) k)"
proof -
  let ?k' = "update_pte (p, pg) (\<lambda>pte. pte\<lparr>presented := True, frame := Some f\<rparr>) k"
  have "frame_bound ?k' g" if g: "g \<in> set (busyTable (mmu k))" for g
  proof (cases "g = f")
    case True
    with ref e show ?thesis by (simp add: frame_bound_def pte_at_update_pte)
  next
    case False
    with inv g have "frame_bound k g" by (simp add: inv_except_def)
    then obtain e' where e': "pte_at k (frame_ref k g) = Some e'" "presented e'" "frame e' = Some g"
      by (auto simp: frame_bound_def split: option.splits)
    with e have "frame_ref k g \<noteq> (p, pg)" by auto
    with e' show ?thesis by (simp add: frame_bound_def pte_at_update_pte)
  qed
  moreover from inv have "\<forall>x \<in> set (key_pids ?k'). snd x = fst x"
    by (simp add: inv_except_def keys_ok_iff)
  ultimately show ?thesis
    using inv unfolding kernel_inv_def inv_except_def keys_ok_iff by simp
qed

lemma inv_alloc:
  assumes inv: "kernel_inv k" and ne: "freeTable (mmu k) \<noteq> []"
  shows "\<exists>f m'. MMU_alloc p pg (mmu k) = (Inr (int f), m') \<and>
           inv_except (Some f) (k\<lparr>mmu := m'\<rparr>) \<and> f \<in> set (busyTable m') \<and>
           frame_ref (k\<lparr>mmu := m'\<rparr>) f = (p, pg)"
proof -
  let ?m = "mmu k"
  let ?f = "last (freeTable ?m)"
  from ne have "?f \<in> set (freeTable ?m)" by simp
  with inv have flt: "?f < length (frameTable ?m)"
    by (simp add: kernel_inv_def inv_except_def)
  let ?m' = "?m\<lparr>freeTable := butlast (freeTable ?m),
                  frameTable := (frameTable ?m)[?f := (frameTable ?m ! ?f)\<lparr>busy := True, frame_pid := p, frame_page := pg\<rparr>],
                  busyTable := Set_add ?f (busyTable ?m)\<rparr>"
  have a: "MMU_alloc p pg ?m = (Inr (int ?f), ?m')"
    using ne flt by (simp add: MMU_alloc_def MMU_get_def Let_def)
  have b: "?f \<in> set (busyTable ?m')" by (simp add: Set_add_def)
  have r: "frame_ref (k\<lparr>mmu := ?m'\<rparr>) ?f = (p, pg)"
    using flt by (simp add: frame_ref_def)
  have fb: "frame_bound (k\<lparr>mmu := ?m'\<rparr>) g" if "g \<in> set (busyTable ?m)" "g \<noteq> ?f" for g
  proof -
    from inv that(1) have "frame_bound k g" by (simp add: kernel_inv_def inv_except_def)
    with that(2) show ?thesis by (simp add: frame_bound_def frame_ref_def pte_at_def)
  qed
  have "inv_except (Some ?f) (k\<lparr>mmu := ?m'\<rparr>)"
    using inv fb flt ne unfolding kernel_inv_def inv_except_def
    by (auto simp: Set_add_def dest: in_set_butlastD)
  with a b r show ?thesis by blast
qed

lemma inv_realloc_victim:
  assumes inv: "kernel_inv k" and f: "f \<in> set (busyTable (mmu k))"
    and e: "pte_at k (p, pg) = Some e" "\<not> presented e"
  shows "\<exists>vpte m5. pte_at k (frame_ref k f) = Some vpte \<and> frame vpte = Some f \<and>
           MMU_realloc f p pg (mmu k) = (Inr True, m5) \<and>
           busyTable m5 = busyTable (mmu k) \<and>
           inv_except (Some f)
             (update_pte (frame_ref k f) (\<lambda>pte. pte\<lparr>presented := False\<rparr>) (k\<lparr>mmu := m5\<rparr>)) \<and>
           frame_ref (k\<lparr>mmu := m5\<rparr>) f = (p, pg) \<and>
           pte_at (update_pte (frame_ref k f) (\<lambda>pte. pte\<lparr>presented := False\<rparr>) (k\<lparr>mmu := m5\<rparr>)) (p, pg)
             = Some e"
proof -
  let ?m = "mmu k"
  let ?v = "frame_ref k f"
  from inv f have flt: "f < length (frameTable ?m)" and fb: "frame_bound k f"
    by (auto simp: kernel_inv_def inv_except_def)
  from fb obtain vpte where v: "pte_at k ?v = Some vpte" "presented vpte" "frame vpte = Some f"
    by (auto simp: frame_bound_def split: option.splits)
  with e have ne: "?v \<noteq> (p, pg)" by auto
  let ?m5 = "?m\<lparr>frameTable := (frameTable ?m)[f := (frameTable ?m ! f)\<lparr>busy := True, frame_pid := p, frame_page := pg\<rparr>]\<rparr>"
  let ?k5 = "update_pte ?v (\<lambda>pte. pte\<lparr>presented := False\<rparr>) (k\<lparr>mmu := ?m5\<rparr>)"
  have re: "MMU_realloc f p pg ?m = (Inr True, ?m5)"
    using flt by (simp add: MMU_realloc_def MMU_get_def)
  have r: "frame_ref (k\<lparr>mmu := ?m5\<rparr>) f = (p, pg)"
    using flt by (simp add: frame_ref_def)
  have pe: "pte_at ?k5 (p, pg) = Some e"
    using ne e by (simp add: pte_at_update_pte pte_at_cong [of "k\<lparr>mmu := ?m5\<rparr>" k])
  have fb': "frame_bound ?k5 g" if g: "g \<in> set (busyTable ?m)" "g \<noteq> f" for g
  proof -
    from inv g(1) have "frame_bound k g" by (simp add: kernel_inv_def inv_except_def)
    then obtain e' where e': "pte_at k (frame_ref k g) = Some e'" "presented e'" "frame e' = Some g"
      by (auto simp: frame_bound_def split: option.splits)
    with v g(2) have "frame_ref k g \<noteq> ?v" by auto
    moreover have "frame_ref ?k5 g = frame_ref k g"
      using g(2) by (simp add: frame_ref_def)
    ultimately show ?thesis
      using e' by (simp add: frame_bound_def pte_at_update_pte pte_at_cong [of "k\<lparr>mmu := ?m5\<rparr>" k])
  qed
  have "\<forall>x \<in> set (key_pids ?k5). snd x = fst x"
    using inv by (simp add: kernel_inv_def inv_except_def keys_ok_iff)
  then have "inv_except (Some f) ?k5"
    using inv fb' flt unfolding kernel_inv_def inv_except_def keys_ok_iff by auto
  with v re r pe show ?thesis by (intro exI [of _ vpte] exI [of _ ?m5]) simp
qed


text \<open>The process map without the page tables: what a memory access never changes.\<close>

definition skeleton :: "Kernel \<Rightarrow> (pid \<times> Process) list" where
  "skeleton k = map (\<lambda>e. (fst e, (snd e)\<lparr>pageTable := []\<rparr>)) (processes k)"

lemma skeleton_cong: "processes k' = processes k \<Longrightarrow> skeleton k' = skeleton k"
  by (simp add: skeleton_def)

lemma skeleton_update_pte [simp]: "skeleton (update_pte r g k) = skeleton k"
proof -
  have "map (\<lambda>e. (fst e, (snd e)\<lparr>pageTable := []\<rparr>)) (Map_modify p h ps) =
        map (\<lambda>e. (fst e, (snd e)\<lparr>pageTable := []\<rparr>)) ps"
    if "\<And>pr. (h pr)\<lparr>pageTable := []\<rparr> = pr\<lparr>pageTable := []\<rparr>" for p h and ps :: "(pid \<times> Process) list"
    using that by (induction ps) auto
  then show ?thesis by (simp add: skeleton_def update_pte_def)
qed

lemma skeleton_forget: "skeleton k = map (\<lambda>e. (fst e, (snd e)\<lparr>pageTable := []\<rparr>)) (forget_referenced k)"
  by (simp add: skeleton_def forget_referenced_def)

lemma kernel_inv_accessStats [simp]: "kernel_inv (k\<lparr>accessStats := a\<rparr>) = kernel_inv k"
  by (rule kernel_inv_cong) simp_all

lemma kernel_inv_random [simp]: "kernel_inv (k\<lparr>random := r\<rparr>) = kernel_inv k"
  by (rule kernel_inv_cong) simp_all

lemma inv_except_accessStats [simp]: "inv_except x (k\<lparr>accessStats := a\<rparr>) = inv_except x k"
  by (rule inv_except_cong) simp_all

lemma pte_at_accessStats [simp]: "pte_at (k\<lparr>accessStats := a\<rparr>) r = pte_at k r"
  by (simp add: pte_at_def)

lemma pte_at_random [simp]: "pte_at (k\<lparr>random := a\<rparr>) r = pte_at k r"
  by (simp add: pte_at_def)

lemma pte_at_mmu [simp]: "pte_at (k\<lparr>mmu := a\<rparr>) r = pte_at k r"
  by (simp add: pte_at_def)

lemma frame_ref_accessStats [simp]: "frame_ref (k\<lparr>accessStats := a\<rparr>) f = frame_ref k f"
  by (simp add: frame_ref_def)

lemma skeleton_accessStats [simp]: "skeleton (k\<lparr>accessStats := a\<rparr>) = skeleton k"
  by (simp add: skeleton_def)

lemma skeleton_mmu [simp]: "skeleton (k\<lparr>mmu := a\<rparr>) = skeleton k"
  by (simp add: skeleton_def)

lemma skeleton_random [simp]: "skeleton (k\<lparr>random := a\<rparr>) = skeleton k"
  by (simp add: skeleton_def)

lemma mmu_same [simp]: "k\<lparr>mmu := mmu k\<rparr> = k"
  by simp

lemma Kernel_handlePageFault_ok:
  assumes inv: "kernel_inv k" and e: "pte_at k (p, pg) = Some e" "\<not> presented e"
  shows "\<exists>k'. Kernel_handlePageFault p pg k = (Inr (), k') \<and> kernel_inv k' \<and> skeleton k' = skeleton k"
proof -
  let ?k1 = "k\<lparr>accessStats := (accessStats k)\<lparr>faults := faults (accessStats k) + 1\<rparr>\<rparr>"
  from e obtain process where pr: "map_of (processes k) p = Some process"
    and pg: "pg < length (pageTable process)"
    by (auto simp: pte_at_def split: option.splits if_splits)
  have inv1: "kernel_inv ?k1" using inv by simp
  have e1: "pte_at ?k1 (p, pg) = Some e" using e by simp
  show ?thesis
  proof (cases "freeTable (mmu k) = []")
    case False
    then have "freeTable (mmu ?k1) \<noteq> []" by simp
    from inv_alloc [OF inv1 this, of p pg] obtain f m' where
      a: "MMU_alloc p pg (mmu k) = (Inr (int f), m')"
      and ie: "inv_except (Some f) (?k1\<lparr>mmu := m'\<rparr>)"
      and fb: "f \<in> set (busyTable m')"
      and fr: "frame_ref (?k1\<lparr>mmu := m'\<rparr>) f = (p, pg)"
      by auto
    let ?k' = "update_pte (p, pg) (\<lambda>pte. pte\<lparr>presented := True, frame := Some f\<rparr>) (?k1\<lparr>mmu := m'\<rparr>)"
    have "pte_at (?k1\<lparr>mmu := m'\<rparr>) (p, pg) = Some e" using e by simp
    with ie fb fr e(2) have "kernel_inv ?k'"
      by (intro inv_bind) simp_all
    moreover have "Kernel_handlePageFault p pg k = (Inr (), ?k')"
      using pr pg a by (simp add: Kernel_handlePageFault_def Let_def bind_pte_def)
    moreover have "skeleton ?k' = skeleton k"
      by simp
    ultimately show ?thesis by blast
  next
    case True
    then have a: "MMU_alloc p pg (mmu k) = (Inr (- 1), mmu k)"
      by (simp add: MMU_alloc_def)
    let ?k3 = "?k1\<lparr>mmu := mmu k,
                    accessStats := (accessStats ?k1)\<lparr>replaced := replaced (accessStats ?k1) + 1\<rparr>\<rparr>"
    have inv3: "kernel_inv ?k3" using inv by simp
    from inv True have "busyTable (mmu ?k3) \<noteq> []"
      by (simp add: kernel_inv_def inv_except_def)
    from Kernel_replace_ok [OF inv3 this] obtain f k4 where
      f: "f \<in> set (busyTable (mmu k))"
      and rep: "Kernel_replace ?k3 = (Inr (frame_ref ?k3 f), k4)"
      and m4: "mmu k4 = mmu k"
      and fg: "forget_referenced k4 = forget_referenced ?k3"
      and inv4: "kernel_inv k4"
      by auto
    have v: "frame_ref k4 f = frame_ref k f" by (simp add: frame_ref_def m4)
    have "pte_at ?k3 (p, pg) = Some e" using e by simp
    from pte_at_forget_fields [OF fg this] e(2) obtain e4 where
      e4: "pte_at k4 (p, pg) = Some e4" "\<not> presented e4"
      by auto
    from f m4 have f4: "f \<in> set (busyTable (mmu k4))" by simp
    from inv_realloc_victim [OF inv4 f4 e4] obtain vpte m5 where
      vp: "pte_at k4 (frame_ref k4 f) = Some vpte" "frame vpte = Some f"
      and re: "MMU_realloc f p pg (mmu k4) = (Inr True, m5)"
      and b5: "busyTable m5 = busyTable (mmu k4)"
      and ie: "inv_except (Some f) (update_pte (frame_ref k4 f) (\<lambda>pte. pte\<lparr>presented := False\<rparr>) (k4\<lparr>mmu := m5\<rparr>))"
      and fr: "frame_ref (k4\<lparr>mmu := m5\<rparr>) f = (p, pg)"
      and pe: "pte_at (update_pte (frame_ref k4 f) (\<lambda>pte. pte\<lparr>presented := False\<rparr>) (k4\<lparr>mmu := m5\<rparr>)) (p, pg) = Some e4"
      by blast
    let ?k5 = "update_pte (frame_ref k4 f) (\<lambda>pte. pte\<lparr>presented := False\<rparr>) (k4\<lparr>mmu := m5\<rparr>)"
    let ?k' = "update_pte (p, pg) (\<lambda>pte. pte\<lparr>presented := True, frame := Some f\<rparr>) ?k5"
    have "kernel_inv ?k'"
      using ie _ _ pe e4(2)
    proof (rule inv_bind)
      show "f \<in> set (busyTable (mmu ?k5))" using f4 b5 by simp
      show "frame_ref ?k5 f = (p, pg)" using fr by simp
    qed
    moreover have "Kernel_handlePageFault p pg k = (Inr (), ?k')"
      using pr pg a rep vp re by (simp add: Kernel_handlePageFault_def Let_def bind_pte_def v)
    moreover have "skeleton ?k' = skeleton k"
    proof -
      have "skeleton ?k' = skeleton k4" by simp
      also have "\<dots> = skeleton ?k3" by (simp only: skeleton_forget fg)
      also have "\<dots> = skeleton k" by simp
      finally show ?thesis .
    qed
    ultimately show ?thesis by blast
  qed
qed


lemma map_of_key_in: "map_of ps p = Some v \<Longrightarrow> (p, v) \<in> set ps"
  by (rule map_of_SomeD)

lemma Map_delete_absent: "map_of ps p = None \<Longrightarrow> Map_delete p ps = ps"
  by (induction ps) (auto simp: Map_delete_def split: if_splits)

subsection \<open>Termination and system calls under the invariant\<close>

lemma Kernel_terminateProcess_ok:
  assumes inv: "kernel_inv k" and live: "map_of (processes k) p = Some process"
  shows "\<exists>k'. Kernel_terminateProcess p k = (Inr (), k') \<and> kernel_inv k' \<and>
           processes k' = Map_delete p (processes k)"
proof -
  let ?pt = "pageTable process"
  let ?m = "mmu k"
  from inv have valid: "\<forall>f \<in> set (busyTable ?m). f < length (frameTable ?m)"
    by (simp add: kernel_inv_def inv_except_def)
  then have "\<forall>f \<in> freed ?pt \<inter> set (busyTable ?m). f < length (frameTable ?m)" by simp
  from free_loop_ok [OF this] obtain m' where m': "free_loop ?pt ?m = (Inr (), m')"
    and b: "busyTable m' = filter (\<lambda>f. f \<notin> freed ?pt) (busyTable ?m)"
    and l: "length (frameTable m') = length (frameTable ?m)"
    and u: "\<forall>f. f \<notin> freed ?pt \<longrightarrow> frameTable m' ! f = frameTable ?m ! f"
    and s: "set (freeTable m') \<subseteq> set (freeTable ?m) \<union> (freed ?pt \<inter> set (busyTable ?m))"
    and n: "m' = ?m \<or> freeTable m' \<noteq> []"
    by blast
  let ?k' = "k\<lparr>mmu := m', processes := Map_delete p (processes k)\<rparr>"
  have 1: "Kernel_terminateProcess p k = (Inr (), ?k')"
    by (simp add: Kernel_terminateProcess_def live m')
  have keys: "\<forall>e \<in> set (processes ?k'). pid (snd e) = fst e"
    using inv by (simp add: kernel_inv_def inv_except_def Map_delete_def)
  have free: "\<forall>f \<in> set (freeTable m'). f < length (frameTable m')"
  proof
    fix f assume "f \<in> set (freeTable m')"
    with s have "f \<in> set (freeTable ?m) \<or> f \<in> set (busyTable ?m)" by blast
    with inv valid have "f < length (frameTable ?m)"
      by (auto simp: kernel_inv_def inv_except_def)
    with l show "f < length (frameTable m')" by simp
  qed
  have nonempty: "freeTable m' = [] \<longrightarrow> busyTable m' \<noteq> []"
    using n inv by (auto simp: kernel_inv_def inv_except_def)
  have bound: "g < length (frameTable m') \<and> frame_bound ?k' g" if g: "g \<in> set (busyTable m')" for g
  proof -
    from g b have gb: "g \<in> set (busyTable ?m)" and nf: "g \<notin> freed ?pt" by simp_all
    from gb valid l have lt: "g < length (frameTable m')" by simp
    from nf u have same: "frame_ref ?k' g = frame_ref k g" by (simp add: frame_ref_def)
    from inv gb have "frame_bound k g" by (simp add: kernel_inv_def inv_except_def)
    then obtain e where e: "pte_at k (frame_ref k g) = Some e" "presented e" "frame e = Some g"
      by (auto simp: frame_bound_def split: option.splits)
    have "fst (frame_ref k g) \<noteq> p"
    proof
      assume "fst (frame_ref k g) = p"
      with e(1) live have "snd (frame_ref k g) < length ?pt" "?pt ! snd (frame_ref k g) = e"
        by (auto simp: pte_at_def split: if_splits)
      with e(2,3) have "g \<in> freed ?pt"
        unfolding freed_def using nth_mem [of "snd (frame_ref k g)" ?pt] by auto
      with nf show False ..
    qed
    then have "pte_at ?k' (frame_ref k g) = pte_at k (frame_ref k g)"
      by (simp add: pte_at_def map_of_Map_delete)
    with e same lt show ?thesis by (simp add: frame_bound_def)
  qed
  have "kernel_inv ?k'"
    unfolding kernel_inv_def inv_except_def
    using keys free nonempty bound inv by (simp add: kernel_inv_def inv_except_def)
  with 1 show ?thesis by (intro exI [of _ ?k']) simp
qed

lemma Map_modify_cong:
  "map_of ps p = Some v \<Longrightarrow> h v = h' v \<Longrightarrow> Map_modify p h ps = Map_modify p h' ps"
  by (induction ps) (auto split: if_splits)

lemma Map_modify_id: "map_of ps p = Some v \<Longrightarrow> h v = v \<Longrightarrow> Map_modify p h ps = ps"
  by (induction ps) (auto split: if_splits)

lemma inv_update_pte_bits:
  assumes inv: "kernel_inv k" and g: "\<And>pte. presented (g pte) = presented pte \<and> frame (g pte) = frame pte"
  shows "kernel_inv (update_pte r g k)"
proof -
  from g have gp: "\<And>pte. presented (g pte) = presented pte"
    and gf: "\<And>pte. frame (g pte) = frame pte"
    by simp_all
  have "frame_bound (update_pte r g k) f" if "frame_bound k f" for f
    using that
    by (cases "frame_ref k f = r")
       (auto simp: frame_bound_def pte_at_update_pte gp gf split: option.splits)
  moreover from inv have "\<forall>x \<in> set (key_pids (update_pte r g k)). snd x = fst x"
    by (simp add: kernel_inv_def inv_except_def keys_ok_iff)
  ultimately show ?thesis
    using inv unfolding kernel_inv_def inv_except_def keys_ok_iff by simp
qed

lemma Kernel_syscall_ok:
  assumes inv: "kernel_inv k"
  shows "\<exists>k'. Kernel_syscall sc k = (Inr (), k') \<and> kernel_inv k' \<and>
           (case sc of
              Exit p \<Rightarrow> processes k' = Map_delete p (processes k)
            | AccessMemory p pg b \<Rightarrow> skeleton k' = skeleton k)"
proof (cases sc)
  case (Exit p)
  show ?thesis
  proof (cases "map_of (processes k) p")
    case None
    then have "Kernel_syscall sc k = (Inr (), k)"
      by (simp add: Kernel_syscall_def Kernel_dispatch_def Exit Kernel_terminateProcess_def
          Kernel_handleException_def)
    with inv None show ?thesis by (simp add: Exit Map_delete_absent)
  next
    case (Some process)
    from Kernel_terminateProcess_ok [OF inv Some] obtain k' where
      "Kernel_terminateProcess p k = (Inr (), k')" "kernel_inv k'"
      "processes k' = Map_delete p (processes k)"
      by blast
    then show ?thesis by (simp add: Kernel_syscall_def Kernel_dispatch_def Exit)
  qed
next
  case (AccessMemory p pg b)
  show ?thesis
  proof (cases "map_of (processes k) p")
    case None
    then have "Kernel_syscall sc k = (Inr (), k)"
      by (simp add: Kernel_syscall_def Kernel_dispatch_def AccessMemory Kernel_handleException_def)
    with inv show ?thesis by (simp add: AccessMemory)
  next
    case (Some process)
    let ?pt = "pageTable process"
    have same: "k\<lparr>processes := Map_modify p (\<lambda>pr. pr\<lparr>pageTable := ?pt\<rparr>) (processes k), mmu := mmu k\<rparr> = k"
      using Map_modify_id [OF Some, of "\<lambda>pr. pr\<lparr>pageTable := ?pt\<rparr>"] by simp
    consider (undef) "\<not> (\<exists>i. pg = Some i \<and> i < length ?pt)"
      | (fault) i where "pg = Some i" "i < length ?pt" "\<not> presented (?pt ! i)"
      | (hit) i where "pg = Some i" "i < length ?pt" "presented (?pt ! i)"
      by blast
    then show ?thesis
    proof cases
      case undef
      then have "MMU_access p ?pt pg b (mmu k) = (Inl TypeError, ?pt, mmu k)"
        by (cases pg) (auto simp: MMU_access_def not_less)
      then have "Kernel_syscall sc k = (Inr (), k)"
        using Some same
        by (simp add: Kernel_syscall_def Kernel_dispatch_def AccessMemory Kernel_handleException_def)
      with inv show ?thesis by (simp add: AccessMemory)
    next
      case fault
      then have "MMU_access p ?pt pg b (mmu k) = (Inl (PageFault p i), ?pt, mmu k)"
        by (simp add: MMU_access_def Let_def)
      then have sys: "Kernel_syscall sc k = Kernel_handlePageFault p i k"
        using Some same
        by (simp add: Kernel_syscall_def Kernel_dispatch_def AccessMemory Kernel_handleException_def)
      from fault Some have "pte_at k (p, i) = Some (?pt ! i)" by (simp add: pte_at_def)
      from Kernel_handlePageFault_ok [OF inv this fault(3)] sys
      show ?thesis by (simp add: AccessMemory)
    next
      case hit
      let ?g = "\<lambda>pte. pte\<lparr>referenced := True, modified := (b \<or> modified pte)\<rparr>"
      from hit have acc: "MMU_access p ?pt pg b (mmu k) = (Inr (), ?pt[i := ?g (?pt ! i)], mmu k)"
        by (cases b) (simp_all add: MMU_access_def Let_def)
      let ?h = "\<lambda>pr. pr\<lparr>pageTable := ?pt[i := ?g (?pt ! i)]\<rparr>"
      let ?h' = "\<lambda>pr. pr\<lparr>pageTable := (pageTable pr)[i := ?g (pageTable pr ! i)]\<rparr>"
      have "Map_modify p ?h (processes k) = Map_modify p ?h' (processes k)"
        by (rule Map_modify_cong [OF Some]) simp
      then have "k\<lparr>processes := Map_modify p ?h (processes k), mmu := mmu k\<rparr> =
                 k\<lparr>processes := Map_modify p ?h' (processes k), mmu := mmu k\<rparr>"
        by (rule arg_cong [where f = "\<lambda>x. k\<lparr>processes := x, mmu := mmu k\<rparr>"])
      also have "\<dots> = update_pte (p, i) ?g k"
        by (simp add: update_pte_def)
      finally have "k\<lparr>processes := Map_modify p ?h (processes k), mmu := mmu k\<rparr> =
                    update_pte (p, i) ?g k" .
      with acc Some have sys: "Kernel_syscall sc k = (Inr (), update_pte (p, i) ?g k)"
        by (simp add: Kernel_syscall_def Kernel_dispatch_def AccessMemory)
      have "kernel_inv (update_pte (p, i) ?g k)"
        using inv by (rule inv_update_pte_bits) simp
      with sys show ?thesis by (simp add: AccessMemory)
    qed
  qed
qed


section \<open>The lifetime of a process\<close>

lemma Process_rotate_fields:
  "pid (fst (Process_rotate this rs)) = pid this \<and>
   pageTable (fst (Process_rotate this rs)) = pageTable this \<and>
   ttl (fst (Process_rotate this rs)) = ttl this \<and>
   counter (fst (Process_rotate this rs)) = counter this"
  by (simp add: Process_rotate_def split: prod.splits)

lemma Process_step_exit:
  "ttl this \<le> counter this \<Longrightarrow>
   Process_step this rs = ((Exit (pid this), True), this\<lparr>counter := counter this + 1\<rparr>, rs)"
  by (simp add: Process_step_def)

lemma Process_step_access:
  assumes "counter this < ttl this"
  shows "\<exists>pg b this' rs'.
           Process_step this rs = ((AccessMemory (pid this) pg b, False), this', rs') \<and>
           pid this' = pid this \<and> pageTable this' = pageTable this \<and> ttl this' = ttl this \<and>
           counter this' = counter this + 1"
proof -
  let ?this1 = "this\<lparr>counter := counter this + 1\<rparr>"
  let ?r = "if workingSetTtl ?this1 \<le> counter this then Process_rotate ?this1 rs else (?this1, rs)"
  have f: "pid (fst ?r) = pid this \<and> pageTable (fst ?r) = pageTable this \<and>
           ttl (fst ?r) = ttl this \<and> counter (fst ?r) = counter this + 1"
    using Process_rotate_fields [of ?this1 rs] by simp
  from assms have "\<exists>pg b rs'. Process_step this rs = ((AccessMemory (pid (fst ?r)) pg b, False), fst ?r, rs')"
    by (simp add: Process_step_def Let_def split_beta)
  with f show ?thesis by metis
qed

lemma map_of_Map_set: "map_of (Map_set p v ps) q = (if q = p then Some v else map_of ps q)"
  by (induction ps) auto

text \<open>The counter and the lifetime of the process stored under a key, if any.\<close>

definition life :: "Kernel \<Rightarrow> pid \<Rightarrow> (nat \<times> nat) option" where
  "life k q = map_option (\<lambda>pr. (counter pr, ttl pr)) (map_of (processes k) q)"

lemma life_skeleton:
  "life k q = map_option (\<lambda>pr. (counter pr, ttl pr)) (map_of (skeleton k) q)"
  using map_of_map_snd [of "\<lambda>pr. pr\<lparr>pageTable := []\<rparr>" "processes k" q]
  by (simp add: life_def skeleton_def option.map_comp comp_def)

lemma inv_Map_set:
  assumes inv: "kernel_inv k" and live: "map_of (processes k) p = Some this"
    and same: "pid this' = pid this" "pageTable this' = pageTable this"
  shows "kernel_inv (k\<lparr>processes := Map_set p this' (processes k)\<rparr>)"
proof -
  let ?k' = "k\<lparr>processes := Map_set p this' (processes k)\<rparr>"
  from inv live have "pid this = p"
    using map_of_SomeD [OF live] by (auto simp: kernel_inv_def inv_except_def)
  have sub: "set (Map_set q v ps) \<subseteq> insert (q, v) (set ps)" for q and v :: Process and ps
    by (induction ps) auto
  have keys: "\<forall>e \<in> set (processes ?k'). pid (snd e) = fst e"
  proof
    fix e assume "e \<in> set (processes ?k')"
    with sub [of p this' "processes k"] have "e = (p, this') \<or> e \<in> set (processes k)" by auto
    then show "pid (snd e) = fst e"
      using inv same \<open>pid this = p\<close> by (auto simp: kernel_inv_def inv_except_def)
  qed
  have "pte_at ?k' r = pte_at k r" for r
    using live same by (simp add: pte_at_def map_of_Map_set)
  then have "frame_bound ?k' f = frame_bound k f" for f
    by (simp add: frame_bound_def frame_ref_def)
  with keys inv show ?thesis by (simp add: kernel_inv_def inv_except_def)
qed

lemma Process_run_ok:
  assumes inv: "kernel_inv k" and live: "map_of (processes k) p = Some this"
  shows "\<exists>k'. Process_run p k = (Inr (ttl this \<le> counter this), k') \<and> kernel_inv k' \<and>
           life k' p = (if ttl this \<le> counter this then None
                        else Some (counter this + 1, ttl this)) \<and>
           (\<forall>q. q \<noteq> p \<longrightarrow> life k' q = life k q)"
proof -
  from inv have pid: "pid this = p"
    using map_of_SomeD [OF live] by (auto simp: kernel_inv_def inv_except_def)
  show ?thesis
  proof (cases "ttl this \<le> counter this")
    case True
    let ?this' = "this\<lparr>counter := counter this + 1\<rparr>"
    let ?k1 = "k\<lparr>processes := Map_set p ?this' (processes k), random := random k\<rparr>"
    have "kernel_inv (k\<lparr>processes := Map_set p ?this' (processes k)\<rparr>)"
      using inv live by (rule inv_Map_set) simp_all
    then have "kernel_inv ?k1" by simp
    from Kernel_syscall_ok [OF this, of "Exit p"] obtain k' where
      k': "Kernel_syscall (Exit p) ?k1 = (Inr (), k')" "kernel_inv k'"
      "processes k' = Map_delete p (Map_set p ?this' (processes k))"
      by auto
    have "Process_run p k = (Inr True, k')"
      using live True k'(1) pid by (simp add: Process_run_def Process_step_exit)
    moreover have "life k' q = (if q = p then None else life k q)" for q
      by (simp add: life_def k'(3) map_of_Map_delete map_of_Map_set)
    ultimately show ?thesis using True k'(2) by simp
  next
    case False
    then have "counter this < ttl this" by simp
    from Process_step_access [OF this, of "random k"] obtain pg b this' rs' where
      st: "Process_step this (random k) = ((AccessMemory (pid this) pg b, False), this', rs')"
      and f: "pid this' = pid this" "pageTable this' = pageTable this" "ttl this' = ttl this"
      "counter this' = counter this + 1"
      by blast
    let ?k1 = "k\<lparr>processes := Map_set p this' (processes k), random := rs'\<rparr>"
    have "kernel_inv (k\<lparr>processes := Map_set p this' (processes k)\<rparr>)"
      using inv live f(1,2) by (rule inv_Map_set)
    then have "kernel_inv ?k1" by simp
    from Kernel_syscall_ok [OF this, of "AccessMemory p pg b"] obtain k' where
      k': "Kernel_syscall (AccessMemory p pg b) ?k1 = (Inr (), k')" "kernel_inv k'"
      "skeleton k' = skeleton ?k1"
      by auto
    have "Process_run p k = (Inr False, k')"
      using live st k'(1) pid by (simp add: Process_run_def)
    moreover have "life k' q = (if q = p then Some (counter this + 1, ttl this) else life k q)" for q
    proof -
      have "life k' q = life ?k1 q" by (simp only: life_skeleton k'(3))
      also have "\<dots> = (if q = p then Some (counter this + 1, ttl this) else life k q)"
        using f by (simp add: life_def map_of_Map_set)
      finally show ?thesis .
    qed
    ultimately show ?thesis using False k'(2) by simp
  qed
qed

lemma Process_run_dead: "map_of (processes k) p = None \<Longrightarrow> Process_run p k = (Inl TypeError, k)"
  by (simp add: Process_run_def)


text \<open>
  A schedule is the list of the receivers of successive calls of \<^verbatim>\<open>run\<close>, those of other
  processes included; \<open>returned p\<close> picks what the calls on \<open>p\<close> returned.
\<close>

fun run_schedule :: "pid list \<Rightarrow> Kernel \<Rightarrow> (pid \<times> (thrown + bool)) list \<times> Kernel" where
  "run_schedule [] k = ([], k)"
| "run_schedule (q # qs) k =
     (case Process_run q k of
        (r, k1) \<Rightarrow> (case run_schedule qs k1 of (out, k2) \<Rightarrow> ((q, r) # out, k2)))"

definition returned :: "pid \<Rightarrow> (pid \<times> (thrown + bool)) list \<Rightarrow> (thrown + bool) list" where
  "returned p out = map snd (filter (\<lambda>x. fst x = p) out)"

lemma Process_run_other:
  assumes "kernel_inv k" and "q \<noteq> p"
  shows "\<exists>r k'. Process_run q k = (r, k') \<and> kernel_inv k' \<and> life k' p = life k p"
proof (cases "map_of (processes k) q")
  case None
  with assms show ?thesis by (simp add: Process_run_dead)
next
  case (Some this)
  from Process_run_ok [OF assms(1) Some] assms(2) show ?thesis by auto
qed

lemma run_schedule_dead:
  assumes "kernel_inv k" and "life k p = None" and "count_list sched p = 0"
  shows "returned p (fst (run_schedule sched k)) = [] \<and> life (snd (run_schedule sched k)) p = None"
  using assms
proof (induction sched arbitrary: k)
  case Nil
  then show ?case by (simp add: returned_def)
next
  case (Cons q qs)
  from Cons.prems(3) have qp: "q \<noteq> p" and c: "count_list qs p = 0"
    by (auto split: if_splits)
  from Process_run_other [OF Cons.prems(1) qp] obtain r k' where
    r: "Process_run q k = (r, k')" "kernel_inv k'" "life k' p = life k p"
    by blast
  with Cons.prems(2) have "life k' p = None" by simp
  from Cons.IH [OF r(2) this c] r(1) qp show ?case
    by (simp add: returned_def split_beta)
qed

lemma run_schedule_lifetime:
  assumes "kernel_inv k" and "life k p = Some (c, t)" and "c \<le> t"
    and "count_list sched p = t + 1 - c"
  shows "returned p (fst (run_schedule sched k)) = replicate (t - c) (Inr False) @ [Inr True] \<and>
         life (snd (run_schedule sched k)) p = None"
  using assms
proof (induction sched arbitrary: k c)
  case Nil
  then show ?case by simp
next
  case (Cons q qs)
  show ?case
  proof (cases "q = p")
    case False
    with Cons.prems(4) have cnt: "count_list qs p = t + 1 - c" by simp
    from Process_run_other [OF Cons.prems(1) False] obtain r k' where
      r: "Process_run q k = (r, k')" "kernel_inv k'" "life k' p = life k p"
      by blast
    with Cons.prems(2) have "life k' p = Some (c, t)" by simp
    from Cons.IH [OF r(2) this Cons.prems(3) cnt] r(1) False show ?thesis
      by (simp add: returned_def split_beta)
  next
    case True
    from Cons.prems(2) obtain this where live: "map_of (processes k) p = Some this"
      and ct: "counter this = c" "ttl this = t"
      by (auto simp: life_def)
    from Process_run_ok [OF Cons.prems(1) live] ct obtain k' where
      r: "Process_run p k = (Inr (t \<le> c), k')" "kernel_inv k'"
      and l: "life k' p = (if t \<le> c then None else Some (c + 1, t))"
      by auto
    show ?thesis
    proof (cases "t \<le> c")
      case last: True
      with Cons.prems(3) have tc: "t = c" by simp
      with Cons.prems(4) True have "count_list qs p = 0" by simp
      from run_schedule_dead [OF r(2) _ this, of ] l last
      have "returned p (fst (run_schedule qs k')) = [] \<and> life (snd (run_schedule qs k')) p = None"
        by simp
      with r(1) True tc show ?thesis
        by (simp add: returned_def split_beta)
    next
      case more: False
      with Cons.prems(4) True have cnt: "count_list qs p = t + 1 - (c + 1)" by simp
      from more l have "life k' p = Some (c + 1, t)" by simp
      from Cons.IH [OF r(2) this _ cnt] more
      have "returned p (fst (run_schedule qs k')) = replicate (t - (c + 1)) (Inr False) @ [Inr True] \<and>
            life (snd (run_schedule qs k')) p = None"
        by simp
      moreover from more have "replicate (t - c) (Inr False :: thrown + bool) =
                               Inr False # replicate (t - (c + 1)) (Inr False)"
        by (cases "t - c") (simp_all add: Suc_diff_Suc)
      ultimately show ?thesis
        using r(1) True more by (simp add: returned_def split_beta)
    qed
  qed
qed

text \<open>
  The lifetime of a process under the kernel invariant, which holds in every state that a
  kernel built with \<^verbatim>\<open>clock\<close> or \<^verbatim>\<open>random\<close> reaches (lemma \<open>reachable_bounded\<close> below). For a
  process created with lifetime \<open>ttl\<close> (its counter is 0) in such a state, and any sequence
  of calls of \<^verbatim>\<open>run\<close> in which the process is the receiver \<open>ttl + 1\<close> times, whatever steps
  of other processes come in between: the first \<open>ttl\<close> calls on it return false and the next
  returns true and removes it from the process map. Every call of \<^verbatim>\<open>run\<close> increments the
  counter and issues one system call: \<^verbatim>\<open>Exit(pid)\<close>, returning true, when the counter has
  reached \<open>ttl\<close>, and an \<^verbatim>\<open>AccessMemory\<close>, returning false, before.
\<close>

theorem process_lifetime:
  assumes "kernel_inv k" and "map_of (processes k) p = Some this" and "counter this = 0"
    and "count_list sched p = ttl this + 1"
  shows "returned p (fst (run_schedule sched k)) = replicate (ttl this) (Inr False) @ [Inr True] \<and>
         map_of (processes (snd (run_schedule sched k))) p = None \<and>
         (\<forall>x rs. counter (fst (snd (Process_step x rs))) = counter x + 1 \<and>
            (ttl x \<le> counter x \<longrightarrow> fst (Process_step x rs) = (Exit (pid x), True)) \<and>
            (counter x < ttl x \<longrightarrow>
               (\<exists>pg b. fst (Process_step x rs) = (AccessMemory (pid x) pg b, False))))"
proof -
  from assms(2,3) have "life k p = Some (0, ttl this)" by (simp add: life_def)
  from run_schedule_lifetime [OF assms(1) this, of sched] assms(4)
  have "returned p (fst (run_schedule sched k)) = replicate (ttl this) (Inr False) @ [Inr True]"
    and "map_of (processes (snd (run_schedule sched k))) p = None"
    by (simp_all add: life_def)
  moreover have "counter (fst (snd (Process_step x rs))) = counter x + 1 \<and>
            (ttl x \<le> counter x \<longrightarrow> fst (Process_step x rs) = (Exit (pid x), True)) \<and>
            (counter x < ttl x \<longrightarrow>
               (\<exists>pg b. fst (Process_step x rs) = (AccessMemory (pid x) pg b, False)))" for x rs
  proof (cases "ttl x \<le> counter x")
    case True
    then show ?thesis by (simp add: Process_step_exit)
  next
    case False
    then have "counter x < ttl x" by simp
    from Process_step_access [OF this, of rs] False show ?thesis by auto
  qed
  ultimately show ?thesis by blast
qed

lemma kernel_inv_example: "kernel_inv example_kernel"
  by (simp add: kernel_inv_def inv_except_def frame_bound_def frame_ref_def pte_at_def
      example_kernel_def example_process_def new_PageTableEntry_def)

theorem process_lifetime_witness:
  "returned 1000 (fst (run_schedule [1000, 1000, 1000] example_kernel)) =
     [Inr False, Inr False, Inr True] \<and>
   map_of (processes (snd (run_schedule [1000, 1000, 1000] example_kernel))) 1000 = None"
proof -
  have live: "map_of (processes example_kernel) 1000 = Some example_process"
    by (simp add: example_kernel_def)
  have c: "counter example_process = 0" and t: "ttl example_process = 2"
    by (simp_all add: example_process_def)
  have n: "count_list [1000, 1000, 1000] (1000 :: nat) = ttl example_process + 1"
    by (simp add: t)
  from process_lifetime [OF kernel_inv_example live c n] show ?thesis
    by (simp add: t numeral_2_eq_2)
qed

section \<open>Exceptions in system calls\<close>

text \<open>
  System calls under the kernel invariant, which holds in every state that a kernel built
  with \<^verbatim>\<open>clock\<close> or \<^verbatim>\<open>random\<close> reaches (lemma \<open>reachable_bounded\<close> below). In such a state
  \<^verbatim>\<open>kernel.syscall\<close> returns normally, and the invariant holds again. Whatever the dispatch
  throws is caught: a page fault is passed to the page-fault handler; any other value is
  discarded and the state is the one at the throw. An access with a page that is
  \<^verbatim>\<open>undefined\<close> or outside the page table of a live process throws a TypeError in the
  dispatch and leaves the kernel as it was. The handler runs in the \<^verbatim>\<open>catch\<close> clause, so a
  value thrown by the handler itself leaves \<^verbatim>\<open>syscall\<close>; under the invariant the handler
  throws nothing.
\<close>

theorem syscall_never_throws:
  assumes "kernel_inv k"
  shows "(\<exists>k'. Kernel_syscall sc k = (Inr (), k') \<and> kernel_inv k') \<and>
         (\<forall>p pg k1. Kernel_dispatch sc k = (Inl (PageFault p pg), k1) \<longrightarrow>
            Kernel_syscall sc k = Kernel_handlePageFault p pg k1) \<and>
         (\<forall>e k1. Kernel_dispatch sc k = (Inl e, k1) \<and> (\<forall>p pg. e \<noteq> PageFault p pg) \<longrightarrow>
            Kernel_syscall sc k = (Inr (), k1)) \<and>
         (\<forall>p process pg b. map_of (processes k) p = Some process \<and>
            (pg = None \<or> (\<exists>i. pg = Some i \<and> length (pageTable process) \<le> i)) \<longrightarrow>
            Kernel_dispatch (AccessMemory p pg b) k = (Inl TypeError, k) \<and>
            Kernel_syscall (AccessMemory p pg b) k = (Inr (), k))"
proof -
  from Kernel_syscall_ok [OF assms, of sc]
  have 1: "\<exists>k'. Kernel_syscall sc k = (Inr (), k') \<and> kernel_inv k'" by blast
  have 2: "\<forall>p pg k1. Kernel_dispatch sc k = (Inl (PageFault p pg), k1) \<longrightarrow>
            Kernel_syscall sc k = Kernel_handlePageFault p pg k1"
    by (simp add: Kernel_syscall_def Kernel_handleException_def)
  have 3: "\<forall>e k1. Kernel_dispatch sc k = (Inl e, k1) \<and> (\<forall>p pg. e \<noteq> PageFault p pg) \<longrightarrow>
            Kernel_syscall sc k = (Inr (), k1)"
    by (auto simp: Kernel_syscall_def Kernel_handleException_def split: thrown.splits)
  have 4: "Kernel_dispatch (AccessMemory p pg b) k = (Inl TypeError, k) \<and>
           Kernel_syscall (AccessMemory p pg b) k = (Inr (), k)"
    if live: "map_of (processes k) p = Some process"
      and pg: "pg = None \<or> (\<exists>i. pg = Some i \<and> length (pageTable process) \<le> i)"
    for p process pg b
  proof -
    have same: "k\<lparr>processes := Map_modify p (\<lambda>pr. pr\<lparr>pageTable := pageTable process\<rparr>) (processes k),
                  mmu := mmu k\<rparr> = k"
      using Map_modify_id [OF live, of "\<lambda>pr. pr\<lparr>pageTable := pageTable process\<rparr>"] by simp
    from pg have "MMU_access p (pageTable process) pg b (mmu k) = (Inl TypeError, pageTable process, mmu k)"
      by (auto simp: MMU_access_def)
    with live same have "Kernel_dispatch (AccessMemory p pg b) k = (Inl TypeError, k)"
      by (simp add: Kernel_dispatch_def)
    then show ?thesis by (simp add: Kernel_syscall_def Kernel_handleException_def)
  qed
  from 1 2 3 4 show ?thesis by blast
qed

theorem syscall_never_throws_witness:
  "(\<exists>k'. Kernel_syscall (AccessMemory 1000 (Some 2) True) example_kernel = (Inr (), k') \<and>
         kernel_inv k') \<and>
   Kernel_syscall (AccessMemory 1000 None True) example_kernel = (Inr (), example_kernel)"
proof -
  have live: "map_of (processes example_kernel) 1000 = Some example_process"
    by (simp add: example_kernel_def)
  from syscall_never_throws [OF kernel_inv_example, of "AccessMemory 1000 (Some 2) True"]
    syscall_never_throws [OF kernel_inv_example, of "AccessMemory 1000 None True"] live
  show ?thesis by blast
qed

section \<open>Spawning and the number of live processes\<close>

text \<open>
  The rejection sampling of a pid: when it returns, the pid is not a key of the process
  map and the random source has advanced; it returns as soon as one draw gives a pid that
  is not a key.
\<close>

lemma rand_unique_result:
  assumes "rand_unique lo hi u rs = Some y"
  shows "\<not> u (fst y) \<and> (\<exists>i. snd y = sdrop (Suc i) rs \<and> fst y = rand_num lo hi (rs !! i))"
proof (rule rand_unique.raw_induct
    [where P = "\<lambda>lo hi u rs y. \<not> u (fst y) \<and>
                  (\<exists>i. snd y = sdrop (Suc i) rs \<and> fst y = rand_num lo hi (rs !! i))",
     OF _ assms])
  fix rec :: "nat \<Rightarrow> nat \<Rightarrow> (nat \<Rightarrow> bool) \<Rightarrow> rng \<Rightarrow> (nat \<times> rng) option"
    and lo hi u rs y
  assume IH: "\<And>lo hi u rs y. rec lo hi u rs = Some y \<Longrightarrow>
                \<not> u (fst y) \<and> (\<exists>i. snd y = sdrop (Suc i) rs \<and> fst y = rand_num lo hi (rs !! i))"
    and eq: "(let num = rand_num lo hi (shd rs)
              in if u num then rec lo hi u (stl rs) else Some (num, stl rs)) = Some y"
  show "\<not> u (fst y) \<and> (\<exists>i. snd y = sdrop (Suc i) rs \<and> fst y = rand_num lo hi (rs !! i))"
  proof (cases "u (rand_num lo hi (shd rs))")
    case True
    with eq have "rec lo hi u (stl rs) = Some y" by (simp add: Let_def)
    from IH [OF this] obtain i where "\<not> u (fst y)" "snd y = sdrop (Suc (Suc i)) rs"
      "fst y = rand_num lo hi (rs !! Suc i)"
      by auto
    then show ?thesis by blast
  next
    case False
    with eq have "y = (rand_num lo hi (shd rs), stl rs)" by (simp add: Let_def)
    with False have "\<not> u (fst y)" "snd y = sdrop (Suc 0) rs" "fst y = rand_num lo hi (rs !! 0)"
      by simp_all
    then show ?thesis by blast
  qed
qed

lemma rand_unique_returns:
  "\<not> u (rand_num lo hi (rs !! m)) \<Longrightarrow> rand_unique lo hi u rs \<noteq> None"
proof (induction m arbitrary: rs)
  case 0
  then show ?case by (subst rand_unique.simps) (simp add: Let_def)
next
  case (Suc m)
  then have "rand_unique lo hi u (stl rs) \<noteq> None" by simp
  then show ?case by (subst rand_unique.simps) (simp add: Let_def)
qed

lemma rand_num_range: "lo \<le> hi \<Longrightarrow> lo \<le> rand_num lo hi d \<and> rand_num lo hi d \<le> hi"
  using floor_times_less [of "hi - lo + 1" d] by (simp add: rand_num_def)


lemma rotate_loop_rng: "\<exists>i. snd (snd (rotate_loop pages working idle rs)) = sdrop i rs"
proof (induction pages arbitrary: working idle rs)
  case Nil
  show ?case by (auto intro: exI [of _ 0])
next
  case (Cons page pages)
  obtain i where i: "snd (snd (rotate_loop pages (working @ [page]) idle (stl rs))) = sdrop i (stl rs)"
    using Cons [of "working @ [page]" idle "stl rs"] by blast
  obtain j where j: "snd (snd (rotate_loop pages working (idle @ [page]) (stl rs))) = sdrop j (stl rs)"
    using Cons [of working "idle @ [page]" "stl rs"] by blast
  show ?case
  proof (cases "unit_value (shd rs) < 20 / 100")
    case True
    with i show ?thesis by (auto simp: roll_def literal_thresholds intro!: exI [of _ "Suc i"])
  next
    case False
    with j show ?thesis by (auto simp: roll_def literal_thresholds intro!: exI [of _ "Suc j"])
  qed
qed

lemma new_Process_result:
  "\<exists>i. snd (new_Process p rs) = sdrop i rs"
  "pid (fst (new_Process p rs)) = p"
  "\<forall>pte \<in> set (pageTable (fst (new_Process p rs))). \<not> presented pte"
proof -
  let ?rs2 = "stl (stl (stl rs))"
  let ?len = "rand_num 32 64 (shd rs)"
  obtain i where i: "snd (snd (rotate_loop [0..<?len] [] [] ?rs2)) = sdrop i ?rs2"
    using rotate_loop_rng by blast
  have "snd (new_Process p rs) = snd (snd (rotate_loop [0..<?len] [] [] ?rs2))"
    by (simp add: new_Process_def Process_rotate_def rand_def split_beta)
  with i have "snd (new_Process p rs) = sdrop (Suc (Suc (Suc i))) rs" by simp
  then show "\<exists>i. snd (new_Process p rs) = sdrop i rs" ..
  show "pid (fst (new_Process p rs)) = p"
    by (simp add: new_Process_def Process_rotate_def rand_def split_beta)
  show "\<forall>pte \<in> set (pageTable (fst (new_Process p rs))). \<not> presented pte"
    by (simp add: new_Process_def Process_rotate_def rand_def split_beta new_PageTableEntry_def)
qed


text \<open>
  The sampling need not return: a source whose draws keep giving live pids makes it run
  for ever. A source is \<open>fair\<close> when every pid of the range comes up again and again;
  with a fair source and fewer than 9000 live processes the sampling returns.
\<close>

definition fair :: "rng \<Rightarrow> bool" where
  "fair rs = (\<forall>v \<in> {1000..9999}. \<forall>n. \<exists>m\<ge>n. rand_num 1000 9999 (rs !! m) = v)"

lemma fair_sdrop: "fair rs \<Longrightarrow> fair (sdrop i rs)"
  unfolding fair_def
proof (intro ballI allI)
  fix v :: nat and n
  assume f: "\<forall>v \<in> {1000..9999}. \<forall>n. \<exists>m\<ge>n. rand_num 1000 9999 (rs !! m) = v"
    and v: "v \<in> {1000..9999}"
  from f v obtain m where m: "m \<ge> n + i" "rand_num 1000 9999 (rs !! m) = v" by blast
  then have "m - i \<ge> n" "rand_num 1000 9999 (sdrop i rs !! (m - i)) = v"
    by (simp_all add: sdrop_snth)
  then show "\<exists>m\<ge>n. rand_num 1000 9999 (sdrop i rs !! m) = v" by blast
qed

lemma free_pid:
  fixes ps :: "(nat \<times> 'v) list"
  assumes "length ps < 9000"
  shows "\<exists>v \<in> {1000..9999}. map_of ps v = None"
proof (rule ccontr)
  assume "\<not> (\<exists>v \<in> {1000..9999}. map_of ps v = None)"
  then have "{1000..9999} \<subseteq> fst ` set ps"
    by (auto simp: map_of_eq_None_iff)
  then have "card {1000..9999 :: nat} \<le> card (fst ` set ps)"
    by (intro card_mono) simp_all
  also have "\<dots> \<le> card (set ps)" by (rule card_image_le) simp
  also have "\<dots> \<le> length ps" by (rule card_length)
  finally show False using assms by simp
qed

lemma Map_set_absent: "map_of ps p = None \<Longrightarrow> Map_set p v ps = ps @ [(p, v)]"
  by (induction ps) (auto split: if_splits)

lemma Map_set_present: "map_of ps p = Some v' \<Longrightarrow> length (Map_set p v ps) = length ps"
  by (induction ps) (auto split: if_splits)

text \<open>What \<open>spawn_loop\<close> has done when it returns.\<close>

definition spawned :: "Kernel \<Rightarrow> Kernel \<Rightarrow> (pid \<times> Process) list \<Rightarrow> bool" where
  "spawned k k' new =
     (processes k' = processes k @ new \<and> distinct (map fst new) \<and>
      (\<forall>e \<in> set new.
         map_of (processes k) (fst e) = None \<and> 1000 \<le> fst e \<and> fst e \<le> 9999 \<and>
         pid (snd e) = fst e \<and> (\<forall>pte \<in> set (pageTable (snd e)). \<not> presented pte)) \<and>
      mmu k' = mmu k \<and> replacer k' = replacer k \<and> accessStats k' = accessStats k \<and>
      (\<exists>i. random k' = sdrop i (random k)))"

lemma spawn_loop_result:
  "spawn_loop n k = Some k' \<Longrightarrow> \<exists>new. length new = n \<and> spawned k k' new"
proof (induction n arbitrary: k)
  case 0
  then have "spawned k k' []"
    by (auto simp: spawned_def intro: exI [of _ 0])
  then show ?case by auto
next
  case (Suc n)
  from Suc.prems obtain p rs where ru: "rand_unique 1000 9999 (Map_has (processes k)) (random k) = Some (p, rs)"
    by (auto split: option.splits)
  from rand_unique_result [OF this] obtain i where fresh: "map_of (processes k) p = None"
    and rs: "rs = sdrop (Suc i) (random k)" and p: "p = rand_num 1000 9999 (random k !! i)"
    by (auto simp: Map_has_def)
  from p have range: "1000 \<le> p" "p \<le> 9999"
    using rand_num_range [of 1000 9999 "random k !! i"] by simp_all
  let ?pr = "fst (new_Process p rs)"
  let ?rs' = "snd (new_Process p rs)"
  let ?k1 = "k\<lparr>processes := processes k @ [(p, ?pr)], random := ?rs'\<rparr>"
  from Suc.prems ru fresh have "spawn_loop n ?k1 = Some k'"
    by (simp add: Map_set_absent split_beta)
  from Suc.IH [OF this] obtain new where len: "length new = n" and sp: "spawned ?k1 k' new"
    by blast
  obtain j where j: "?rs' = sdrop j rs" using new_Process_result(1) by blast
  from sp obtain i' where "random k' = sdrop i' ?rs'" by (auto simp: spawned_def)
  with j rs have "random k' = sdrop (Suc i + j + i') (random k)"
    by (simp add: sdrop_add add.commute add.left_commute del: sdrop.simps)
  then have rnd: "\<exists>i. random k' = sdrop i (random k)" ..
  have "spawned k k' ((p, ?pr) # new)"
    using sp fresh range new_Process_result(2,3) [of p rs] rnd
    unfolding spawned_def by (auto simp: map_of_append map_add_def split: option.splits)
  with len show ?case by (intro exI [of _ "(p, ?pr) # new"]) simp
qed

lemma spawn_loop_returns:
  "fair (random k) \<Longrightarrow> length (processes k) + n \<le> 9000 \<Longrightarrow> spawn_loop n k \<noteq> None"
proof (induction n arbitrary: k)
  case 0
  then show ?case by simp
next
  case (Suc n)
  from Suc.prems(2) have "length (processes k) < 9000" by simp
  from free_pid [OF this] obtain v where v: "v \<in> {1000..9999}" "map_of (processes k) v = None"
    by blast
  from Suc.prems(1) v(1) obtain m where "rand_num 1000 9999 (random k !! m) = v"
    unfolding fair_def by blast
  with v(2) have "\<not> Map_has (processes k) (rand_num 1000 9999 (random k !! m))"
    by (simp add: Map_has_def)
  from rand_unique_returns [of "Map_has (processes k)" 1000 9999 "random k" m, OF this] obtain p rs where
    ru: "rand_unique 1000 9999 (Map_has (processes k)) (random k) = Some (p, rs)"
    by auto
  from rand_unique_result [OF this] obtain i where fresh: "map_of (processes k) p = None"
    and rs: "rs = sdrop (Suc i) (random k)"
    by (auto simp: Map_has_def)
  let ?k1 = "k\<lparr>processes := processes k @ [(p, fst (new_Process p rs))], random := snd (new_Process p rs)\<rparr>"
  obtain j where "snd (new_Process p rs) = sdrop j rs" using new_Process_result(1) by blast
  with rs Suc.prems(1) have "fair (random ?k1)" by (simp add: fair_sdrop del: sdrop.simps)
  moreover from Suc.prems(2) have "length (processes ?k1) + n \<le> 9000" by simp
  ultimately have "spawn_loop n ?k1 \<noteq> None" by (rule Suc.IH)
  with ru fresh show ?case by (simp add: Map_set_absent split_beta)
qed

lemma inv_spawned:
  assumes inv: "kernel_inv k" and sp: "spawned k k' new"
  shows "kernel_inv k'"
proof -
  from sp have ps: "processes k' = processes k @ new" and m: "mmu k' = mmu k"
    and r: "replacer k' = replacer k"
    and keys: "\<forall>e \<in> set new. pid (snd e) = fst e"
    by (auto simp: spawned_def)
  have "frame_bound k' f" if "frame_bound k f" for f
  proof -
    from that obtain e where e: "pte_at k (frame_ref k f) = Some e" "presented e" "frame e = Some f"
      by (auto simp: frame_bound_def split: option.splits)
    then have "map_of (processes k) (fst (frame_ref k f)) \<noteq> None"
      by (auto simp: pte_at_def split: option.splits)
    then have "pte_at k' (frame_ref k f) = pte_at k (frame_ref k f)"
      by (auto simp: pte_at_def ps map_of_append map_add_def split: option.splits)
    with e m show ?thesis by (simp add: frame_bound_def frame_ref_def)
  qed
  with inv keys show ?thesis
    by (auto simp: kernel_inv_def inv_except_def ps m r)
qed


lemma length_skeleton: "length (skeleton k) = length (processes k)"
  by (simp add: skeleton_def)

text \<open>
  A step of a process keeps the invariant and adds no process; so do the inner loops of
  \<^verbatim>\<open>Kernel.run\<close>, and an iteration of its main loop keeps the number of live processes
  at or below \<open>MAX_PROCESS_COUNT\<close>.
\<close>

lemma Process_run_bounded:
  assumes inv: "kernel_inv k"
  shows "kernel_inv (snd (Process_run p k)) \<and>
         length (processes (snd (Process_run p k))) \<le> length (processes k)"
proof (cases "map_of (processes k) p")
  case None
  with inv show ?thesis by (simp add: Process_run_dead)
next
  case (Some this)
  obtain sc t this' rs' where st: "Process_step this (random k) = ((sc, t), this', rs')"
    by (metis prod.exhaust)
  have f: "pid this' = pid this \<and> pageTable this' = pageTable this"
  proof (cases "ttl this \<le> counter this")
    case True
    with st show ?thesis by (auto simp: Process_step_exit)
  next
    case False
    then have "counter this < ttl this" by simp
    from Process_step_access [OF this, of "random k"] st show ?thesis by auto
  qed
  let ?k1 = "k\<lparr>processes := Map_set p this' (processes k), random := rs'\<rparr>"
  have "kernel_inv (k\<lparr>processes := Map_set p this' (processes k)\<rparr>)"
    using inv Some f by (intro inv_Map_set) simp_all
  then have inv1: "kernel_inv ?k1" by simp
  have len1: "length (processes ?k1) = length (processes k)"
    using Some by (simp add: Map_set_present)
  from Kernel_syscall_ok [OF inv1, of sc] obtain k' where
    k': "Kernel_syscall sc ?k1 = (Inr (), k')" "kernel_inv k'"
    and c: "case sc of Exit q \<Rightarrow> processes k' = Map_delete q (processes ?k1)
            | AccessMemory q pg b \<Rightarrow> skeleton k' = skeleton ?k1"
    by blast
  have "length (processes k') \<le> length (processes ?k1)"
  proof (cases sc)
    case (Exit q)
    with c show ?thesis by (simp add: Map_delete_def)
  next
    case (AccessMemory q pg b)
    with c have "length (skeleton k') = length (skeleton ?k1)" by simp
    then show ?thesis by (simp only: length_skeleton)
  qed
  moreover have "Process_run p k = (Inr t, k')"
    using Some st k'(1) by (simp add: Process_run_def)
  ultimately show ?thesis using k'(2) len1 by simp
qed

lemma run_steps_bounded:
  "kernel_inv k \<Longrightarrow>
   kernel_inv (snd (run_steps n p k)) \<and>
   length (processes (snd (run_steps n p k))) \<le> length (processes k)"
proof (induction n arbitrary: k)
  case 0
  then show ?case by simp
next
  case (Suc n)
  let ?k0 = "k\<lparr>accessStats := (accessStats k)\<lparr>total := total (accessStats k) + 1\<rparr>\<rparr>"
  from Suc.prems have "kernel_inv ?k0" by simp
  from Process_run_bounded [OF this, of p]
  have a: "kernel_inv (snd (Process_run p ?k0))"
    and b: "length (processes (snd (Process_run p ?k0))) \<le> length (processes k)"
    by simp_all
  from Suc.IH [OF a] b
  have "kernel_inv (snd (run_steps n p (snd (Process_run p ?k0))))"
    and "length (processes (snd (run_steps n p (snd (Process_run p ?k0))))) \<le> length (processes k)"
    by simp_all
  with a b show ?case
    by (cases "Process_run p ?k0") (auto split: sum.splits)
qed

lemma run_processes_bounded:
  "kernel_inv k \<Longrightarrow>
   kernel_inv (snd (run_processes ps k)) \<and>
   length (processes (snd (run_processes ps k))) \<le> length (processes k)"
proof (induction ps arbitrary: k)
  case Nil
  then show ?case by simp
next
  case (Cons p ps)
  let ?k0 = "k\<lparr>random := snd (rand 64 128 (random k))\<rparr>"
  let ?k1 = "snd (run_steps (fst (rand 64 128 (random k))) p ?k0)"
  from Cons.prems have "kernel_inv ?k0" by simp
  from run_steps_bounded [OF this, of "fst (rand 64 128 (random k))" p]
  have a: "kernel_inv ?k1" and b: "length (processes ?k1) \<le> length (processes k)"
    by simp_all
  from Cons.IH [OF a] b
  have "kernel_inv (snd (run_processes ps ?k1))"
    and "length (processes (snd (run_processes ps ?k1))) \<le> length (processes k)"
    by simp_all
  with a b show ?case
    by (cases "run_steps (fst (rand 64 128 (random k))) p ?k0")
       (auto simp: split_beta split: sum.splits)
qed

lemma Kernel_spawn_result:
  "Kernel_spawn n k = Some k' \<Longrightarrow> \<exists>new. length new = min n MAX_PROCESS_COUNT \<and> spawned k k' new"
  unfolding Kernel_spawn_def by (rule spawn_loop_result)

lemma Kernel_tick_bounded:
  assumes inv: "kernel_inv k" and len: "length (processes k) \<le> MAX_PROCESS_COUNT"
    and tick: "Kernel_tick k = Some (r, k')"
  shows "kernel_inv k' \<and> length (processes k') \<le> MAX_PROCESS_COUNT"
proof -
  let ?k1 = "snd (run_processes (map fst (processes k)) k)"
  from run_processes_bounded [OF inv, of "map fst (processes k)"] len
  have inv1: "kernel_inv ?k1" and len1: "length (processes ?k1) \<le> MAX_PROCESS_COUNT"
    by simp_all
  let ?b = "fst (roll double_0_45 (random ?k1))"
  let ?rs = "snd (roll double_0_45 (random ?k1))"
  let ?count = "fst (rand 1 3 ?rs)"
  let ?k2 = "?k1\<lparr>random := snd (rand 1 3 ?rs)\<rparr>"
  consider (stay) "k' = ?k1 \<or> k' = ?k1\<lparr>random := ?rs\<rparr>"
    | (spawn) "length (processes ?k1) < MAX_PROCESS_COUNT"
        "Kernel_spawn (min ?count (MAX_PROCESS_COUNT - length (processes ?k1))) ?k2 = Some k'"
    using tick
    by (cases "run_processes (map fst (processes k)) k")
       (auto simp: Kernel_tick_def split_beta split: sum.splits if_splits)
  then show ?thesis
  proof cases
    case stay
    with inv1 len1 show ?thesis by auto
  next
    case spawn
    from Kernel_spawn_result [OF spawn(2)] obtain new where
      n: "length new = min (min ?count (MAX_PROCESS_COUNT - length (processes ?k1))) MAX_PROCESS_COUNT"
      and sp: "spawned ?k2 k' new"
      by blast
    from inv1 have "kernel_inv ?k2" by simp
    then have "kernel_inv k'" using sp by (rule inv_spawned)
    moreover from sp have "length (processes k') = length (processes ?k1) + length new"
      by (simp add: spawned_def)
    with n spawn(1) have "length (processes k') \<le> MAX_PROCESS_COUNT" by simp
    ultimately show ?thesis ..
  qed
qed

lemma new_MMU_free: "freeTable (fst (new_MMU rs)) \<noteq> []"
  using rand_num_range [of 512 1024 "shd rs"]
  by (auto simp: new_MMU_def rand_def)

text \<open>
  The call of \<^verbatim>\<open>#spawn\<close> in the constructor: the process map is empty and the count is
  between 5 and 10.
\<close>

lemma new_Kernel_spawn_call:
  assumes "new_Kernel algo rs = Some (Inr k)"
  shows "\<exists>c r count k0.
           REPLACER algo = Some c \<and> new_Replacer c = Inr r \<and>
           count = fst (rand 5 10 (snd (new_MMU rs))) \<and>
           k0 = \<lparr>replacer = r, processes = [], mmu = fst (new_MMU rs),
                 accessStats = \<lparr>total = 0, faults = 0, replaced = 0\<rparr>,
                 random = snd (rand 5 10 (snd (new_MMU rs)))\<rparr> \<and>
           Kernel_spawn count k0 = Some k \<and>
           count \<le> MAX_PROCESS_COUNT - length (processes k0)"
proof -
  have "fst (rand 5 10 (snd (new_MMU rs))) \<le> 10"
    using rand_num_range [of 5 10] by (simp add: rand_def)
  with assms show ?thesis
    by (auto simp: new_Kernel_def split_beta MAX_PROCESS_COUNT_def
        split: option.splits sum.splits)
qed

lemma new_Replacer_program:
  assumes "algo = ''clock'' \<or> algo = ''random''" and "REPLACER algo = Some c"
    and "new_Replacer c = Inr r"
  shows "r \<noteq> ClockReplacer None \<and> r \<noteq> KernelItself"
  using assms by (auto simp: REPLACER_def new_Replacer_def)

lemma new_Kernel_bounded:
  assumes "new_Kernel algo rs = Some (Inr k)" and algo: "algo = ''clock'' \<or> algo = ''random''"
  shows "kernel_inv k \<and> length (processes k) \<le> MAX_PROCESS_COUNT"
proof -
  let ?m = "fst (new_MMU rs)"
  let ?rs1 = "snd (new_MMU rs)"
  from new_Kernel_spawn_call [OF assms(1)] obtain c r where c: "REPLACER algo = Some c"
    and r: "new_Replacer c = Inr r"
    and sp: "Kernel_spawn (fst (rand 5 10 ?rs1))
               \<lparr>replacer = r, processes = [], mmu = ?m,
                 accessStats = \<lparr>total = 0, faults = 0, replaced = 0\<rparr>,
                 random = snd (rand 5 10 ?rs1)\<rparr> = Some k"
    by blast
  let ?k0 = "\<lparr>replacer = r, processes = [], mmu = ?m,
              accessStats = \<lparr>total = 0, faults = 0, replaced = 0\<rparr>, random = snd (rand 5 10 ?rs1)\<rparr>"
  from new_Replacer_program [OF algo c r] have "r \<noteq> ClockReplacer None \<and> r \<noteq> KernelItself" .
  then have "kernel_inv ?k0"
    using new_MMU_free [of rs]
    by (auto simp: kernel_inv_def inv_except_def new_MMU_def rand_def split_beta)
  from Kernel_spawn_result [OF sp] obtain new where
    n: "length new = min (fst (rand 5 10 ?rs1)) MAX_PROCESS_COUNT" and s: "spawned ?k0 k new"
    by blast
  from \<open>kernel_inv ?k0\<close> s have "kernel_inv k" by (rule inv_spawned)
  moreover from s n have "length (processes k) \<le> MAX_PROCESS_COUNT"
    by (simp add: spawned_def)
  ultimately show ?thesis ..
qed

text \<open>
  Every state that the constructor and the main loop reach with one of the two replacers
  of the program satisfies the invariant.
\<close>

lemma reachable_bounded:
  "reachable algo k \<Longrightarrow> algo = ''clock'' \<or> algo = ''random'' \<Longrightarrow>
   kernel_inv k \<and> length (processes k) \<le> MAX_PROCESS_COUNT"
proof (induction rule: reachable.induct)
  case (constructed algo rs k)
  then show ?case by (rule new_Kernel_bounded)
next
  case (ticked algo k r k')
  then show ?case using Kernel_tick_bounded by blast
qed


text \<open>
  A fair source: the draws run through one draw for each of the 9000 pids, over and over.
\<close>

definition pid_draw :: "nat \<Rightarrow> draw" where
  "pid_draw j = word_of_nat ((j * 2 ^ 53) div 9000 + 1)"

definition fair_source :: rng where
  "fair_source = smap (\<lambda>n. pid_draw (n mod 9000)) (fromN 0)"

lemma pid_draw_pid:
  assumes "j < 9000"
  shows "rand_num 1000 9999 (pid_draw j) = 1000 + j"
proof -
  define A :: nat where "A = 2 ^ 53"
  define q where "q = (j * A) div 9000"
  have A: "A = 9007199254740992" by (simp add: A_def)
  have lo: "9000 * q \<le> j * A" by (simp add: q_def)
  have hi: "j * A < 9000 * q + 9000"
    using mod_less_divisor [of 9000 "j * A"] div_mult_mod_eq [of "j * A" 9000]
    by (simp add: q_def)
  from assms have "j \<le> 8999" by simp
  then have "j * A \<le> 8999 * A" by (rule mult_le_mono1)
  with lo have "9000 * q \<le> 8999 * A" by (rule le_trans)
  then have qlt: "q + 1 < A" using A by simp
  have "unat (pid_draw j) = (q + 1) mod 2 ^ LENGTH(53)"
    unfolding pid_draw_def q_def A_def by (rule unat_of_nat)
  also have "\<dots> = q + 1" using qlt by (simp add: A_def)
  finally have u: "unat (pid_draw j) = q + 1" .
  have "floor_times (pid_draw j) 9000 = j"
  proof (rule floor_times_eqI)
    show "j * 2 ^ 53 \<le> unat (pid_draw j) * 9000"
      using hi by (simp add: u A_def)
    show "unat (pid_draw j) * 9000 + 9000 \<le> (j + 1) * 2 ^ 53"
      using lo by (simp add: u A_def)
    show "(9000::nat) \<le> 2 ^ 53" by simp
  qed
  then show ?thesis
    by (simp add: rand_num_def)
qed

lemma fromN_snth: "fromN k !! n = k + n"
  by (induction n arbitrary: k) simp_all

lemma fair_fair_source: "fair fair_source"
  unfolding fair_def
proof (intro ballI allI)
  fix v :: nat and n
  assume "v \<in> {1000..9999}"
  then have v: "v - 1000 < 9000" "1000 + (v - 1000) = v" by auto
  let ?m = "9000 * n + (v - 1000)"
  have "?m mod 9000 = v - 1000" using v(1) by simp
  then have "rand_num 1000 9999 (fair_source !! ?m) = v"
    using pid_draw_pid [OF v(1)] v(2) by (simp add: fair_source_def fromN_snth)
  moreover have "n \<le> ?m" by simp
  ultimately show "\<exists>m\<ge>n. rand_num 1000 9999 (fair_source !! m) = v" by blast
qed


lemma Kernel_spawn_returns:
  "fair (random k) \<Longrightarrow> length (processes k) + min n MAX_PROCESS_COUNT \<le> 9000 \<Longrightarrow>
   Kernel_spawn n k \<noteq> None"
  unfolding Kernel_spawn_def by (rule spawn_loop_returns)

lemma new_Kernel_returns:
  assumes "fair rs" and "REPLACER algo = Some c" and "new_Replacer c = Inr r"
  shows "\<exists>k. new_Kernel algo rs = Some (Inr k)"
proof -
  note r = assms(2,3)
  let ?rs2 = "snd (rand 5 10 (snd (new_MMU rs)))"
  let ?k0 = "\<lparr>replacer = r, processes = [], mmu = fst (new_MMU rs),
              accessStats = \<lparr>total = 0, faults = 0, replaced = 0\<rparr>, random = ?rs2\<rparr>"
  have "?rs2 = sdrop 2 rs"
    by (simp add: new_MMU_def rand_def split_beta numeral_2_eq_2)
  with assms(1) have "fair (random ?k0)" by (simp add: fair_sdrop del: sdrop.simps)
  moreover have "length (processes ?k0) + min (fst (rand 5 10 (snd (new_MMU rs)))) MAX_PROCESS_COUNT \<le> 9000"
    by (simp add: MAX_PROCESS_COUNT_def)
  ultimately have "Kernel_spawn (fst (rand 5 10 (snd (new_MMU rs)))) ?k0 \<noteq> None"
    by (rule Kernel_spawn_returns)
  with r show ?thesis by (auto simp: new_Kernel_def split_beta)
qed

lemma length_Map_modify [simp]: "length (Map_modify p g ps) = length ps"
  by (induction ps) auto

lemma length_update_pte [simp]: "length (processes (update_pte r g k)) = length (processes k)"
  by (simp add: update_pte_def)

lemma clock_loop_length:
  "length (processes (fst (snd (clock_loop bt h k)))) = length (processes k)"
proof (induction bt h k rule: clock_loop.induct)
  case (1 bt h k)
  show ?case
    using "1.IH"
    by (subst clock_loop.simps) (auto simp: Let_def split_beta split: option.splits)
qed

lemma Kernel_replace_length:
  "length (processes (snd (Kernel_replace k))) = length (processes k)"
proof (cases "replacer k")
  case (ClockReplacer hand)
  then show ?thesis
    using clock_loop_length [of "busyTable (mmu k)" _ k]
    by (cases hand) (simp_all add: Kernel_replace_def ClockReplacer_replace_def Let_def split_beta)
next
  case RandomReplacer
  then show ?thesis
    by (simp add: Kernel_replace_def RandomReplacer_replace_def choose_arr_def Let_def
        split: option.splits)
next
  case KernelItself
  then show ?thesis by (simp add: Kernel_replace_def)
qed

lemma bind_pte_length [simp]:
  "length (processes (snd (bind_pte p pg len f k))) = length (processes k)"
  by (simp add: bind_pte_def)

lemma Kernel_handlePageFault_length:
  "length (processes (snd (Kernel_handlePageFault p pg k))) = length (processes k)"
proof -
  let ?k3 = "k\<lparr>accessStats := (accessStats k)\<lparr>faults := faults (accessStats k) + 1\<rparr>,
               mmu := snd (MMU_alloc p pg (mmu k)),
               accessStats := (accessStats k)\<lparr>faults := faults (accessStats k) + 1,
                                              replaced := replaced (accessStats k) + 1\<rparr>\<rparr>"
  have "length (processes (snd (Kernel_handlePageFault p pg k))) = length (processes k) \<or>
        length (processes (snd (Kernel_handlePageFault p pg k))) =
          length (processes (snd (Kernel_replace ?k3)))"
    by (simp add: Kernel_handlePageFault_def Let_def split_beta
        split: option.splits sum.splits)
  moreover have "length (processes (snd (Kernel_replace ?k3))) = length (processes k)"
    using Kernel_replace_length [of ?k3] by simp
  ultimately show ?thesis by auto
qed

lemma Kernel_syscall_length:
  "length (processes (snd (Kernel_syscall sc k))) \<le> length (processes k)"
proof -
  have d: "length (processes (snd (Kernel_dispatch sc k))) \<le> length (processes k)"
    by (simp add: Kernel_dispatch_def Kernel_terminateProcess_def Map_delete_def split_beta
        split: Syscall.splits option.splits sum.splits)
  have "length (processes (snd (Kernel_syscall sc k))) =
          length (processes (snd (Kernel_dispatch sc k)))"
    using Kernel_handlePageFault_length [of _ _ "snd (Kernel_dispatch sc k)"]
    by (simp add: Kernel_syscall_def Kernel_handleException_def split_beta
        split: sum.splits thrown.splits)
  with d show ?thesis by simp
qed

lemma Process_run_length:
  "length (processes (snd (Process_run p k))) \<le> length (processes k)"
proof (cases "map_of (processes k) p")
  case None
  then show ?thesis by (simp add: Process_run_dead)
next
  case (Some this)
  obtain sc t this' rs' where st: "Process_step this (random k) = ((sc, t), this', rs')"
    by (metis prod.exhaust)
  let ?k1 = "k\<lparr>processes := Map_set p this' (processes k), random := rs'\<rparr>"
  have "length (processes ?k1) = length (processes k)"
    using Some by (simp add: Map_set_present)
  with Kernel_syscall_length [of sc ?k1]
  have "length (processes (snd (Kernel_syscall sc ?k1))) \<le> length (processes k)" by simp
  moreover have "processes (snd (Process_run p k)) = processes (snd (Kernel_syscall sc ?k1))"
    using Some st by (simp add: Process_run_def split_beta split: sum.splits)
  ultimately show ?thesis by simp
qed

lemma run_steps_length:
  "length (processes (snd (run_steps n p k))) \<le> length (processes k)"
proof (induction n arbitrary: k)
  case 0
  then show ?case by simp
next
  case (Suc n)
  let ?k0 = "k\<lparr>accessStats := (accessStats k)\<lparr>total := total (accessStats k) + 1\<rparr>\<rparr>"
  have a: "length (processes (snd (Process_run p ?k0))) \<le> length (processes k)"
    using Process_run_length [of p ?k0] by simp
  with Suc [of "snd (Process_run p ?k0)"]
  have "length (processes (snd (run_steps n p (snd (Process_run p ?k0))))) \<le> length (processes k)"
    by simp
  with a show ?case
    by (cases "Process_run p ?k0") (auto split: sum.splits)
qed

lemma run_processes_length:
  "length (processes (snd (run_processes ps k))) \<le> length (processes k)"
proof (induction ps arbitrary: k)
  case Nil
  then show ?case by simp
next
  case (Cons p ps)
  let ?k0 = "k\<lparr>random := snd (rand 64 128 (random k))\<rparr>"
  let ?k1 = "snd (run_steps (fst (rand 64 128 (random k))) p ?k0)"
  have a: "length (processes ?k1) \<le> length (processes k)"
    using run_steps_length [of "fst (rand 64 128 (random k))" p ?k0] by simp
  with Cons [of ?k1]
  have "length (processes (snd (run_processes ps ?k1))) \<le> length (processes k)" by simp
  with a show ?case
    by (cases "run_steps (fst (rand 64 128 (random k))) p ?k0")
       (auto simp: split_beta split: sum.splits)
qed

text \<open>
  The call of \<^verbatim>\<open>#spawn\<close> in \<^verbatim>\<open>Kernel.run\<close>: it is made only when fewer than
  \<open>MAX_PROCESS_COUNT\<close> processes are live, with a count that is at most the number of
  free places.
\<close>

lemma Kernel_tick_spawn_call:
  assumes "Kernel_tick k = Some (r, k')"
  shows "k' = snd (run_processes (map fst (processes k)) k) \<or>
         (\<exists>k1 rs. k1 = snd (run_processes (map fst (processes k)) k) \<and> k' = k1\<lparr>random := rs\<rparr>) \<or>
         (\<exists>k1 count rs.
            k1 = snd (run_processes (map fst (processes k)) k) \<and>
            length (processes k1) < MAX_PROCESS_COUNT \<and>
            Kernel_spawn (min count (MAX_PROCESS_COUNT - length (processes k1)))
              (k1\<lparr>random := rs\<rparr>) = Some k' \<and>
            min count (MAX_PROCESS_COUNT - length (processes k1))
              \<le> MAX_PROCESS_COUNT - length (processes (k1\<lparr>random := rs\<rparr>)))"
  using assms
  by (cases "run_processes (map fst (processes k)) k")
     (auto simp: Kernel_tick_def split_beta split: sum.splits if_splits)

lemma Kernel_tick_length:
  assumes len: "length (processes k) \<le> MAX_PROCESS_COUNT"
    and tick: "Kernel_tick k = Some (r, k')"
  shows "length (processes k') \<le> MAX_PROCESS_COUNT"
proof -
  let ?k1 = "snd (run_processes (map fst (processes k)) k)"
  from run_processes_length [of "map fst (processes k)" k] len
  have len1: "length (processes ?k1) \<le> MAX_PROCESS_COUNT" by simp
  from Kernel_tick_spawn_call [OF tick]
  consider (stay) "k' = ?k1 \<or> (\<exists>rs. k' = ?k1\<lparr>random := rs\<rparr>)"
    | (spawn) count rs where "length (processes ?k1) < MAX_PROCESS_COUNT"
        "Kernel_spawn (min count (MAX_PROCESS_COUNT - length (processes ?k1)))
           (?k1\<lparr>random := rs\<rparr>) = Some k'"
    by blast
  then show ?thesis
  proof cases
    case stay
    with len1 show ?thesis by auto
  next
    case spawn
    from Kernel_spawn_result [OF spawn(2)] obtain new where
      n: "length new = min (min count (MAX_PROCESS_COUNT - length (processes ?k1))) MAX_PROCESS_COUNT"
      and sp: "spawned (?k1\<lparr>random := rs\<rparr>) k' new"
      by blast
    from sp have "length (processes k') = length (processes ?k1) + length new"
      by (simp add: spawned_def)
    with n spawn(1) show ?thesis by simp
  qed
qed

lemma new_Kernel_length:
  assumes "new_Kernel algo rs = Some (Inr k)"
  shows "length (processes k) \<le> MAX_PROCESS_COUNT"
proof -
  from new_Kernel_spawn_call [OF assms] obtain count k0 where
    sp: "Kernel_spawn count k0 = Some k" and e: "processes k0 = []"
    by auto
  from Kernel_spawn_result [OF sp] obtain new where
    "length new = min count MAX_PROCESS_COUNT" "spawned k0 k new"
    by blast
  with e show ?thesis by (simp add: spawned_def)
qed

lemma reachable_length: "reachable algo k \<Longrightarrow> length (processes k) \<le> MAX_PROCESS_COUNT"
proof (induction rule: reachable.induct)
  case (constructed algo rs k)
  then show ?case by (rule new_Kernel_length)
next
  case (ticked algo k r k')
  then show ?case using Kernel_tick_length by blast
qed


text \<open>
  Claim C5. \<^verbatim>\<open>#spawn\<close> is a private method with two calls: in the constructor, on the empty
  process map with a count between 5 and 10, and in \<^verbatim>\<open>Kernel.run\<close>, under the guard
  \<open>live < MAX_PROCESS_COUNT\<close> with the count \<open>min(count, MAX_PROCESS_COUNT - live)\<close>. At both
  the count is at most \<open>MAX_PROCESS_COUNT - live\<close> (lemmas \<open>new_Kernel_spawn_call\<close> and
  \<open>Kernel_tick_spawn_call\<close>). For every call on an empty map or with such a count,
  \<^verbatim>\<open>spawn(n)\<close>, when it returns, has created exactly \<open>min(n, MAX_PROCESS_COUNT - live)\<close>
  processes, appended to the map under their pids, which lie in \<open>[1000, 9999]\<close>, are pairwise
  distinct and are distinct from all live pids; it returns whenever the random source is
  fair and fewer than 9000 pids are taken. In every state that the constructor and the main
  loop reach, whatever the name of the algorithm, the number of live processes is at most
  \<open>MAX_PROCESS_COUNT = 25\<close>.
\<close>

theorem spawn_count:
  "((processes k = [] \<or> n \<le> MAX_PROCESS_COUNT - length (processes k)) \<and>
    Kernel_spawn n k = Some k' \<longrightarrow>
      (\<exists>new. processes k' = processes k @ new \<and>
             length new = min n (MAX_PROCESS_COUNT - length (processes k)) \<and>
             distinct (map fst new) \<and>
             (\<forall>e \<in> set new. pid (snd e) = fst e \<and> \<not> Map_has (processes k) (fst e) \<and>
                           1000 \<le> fst e \<and> fst e \<le> 9999))) \<and>
   (fair (random k) \<and> length (processes k) + min n MAX_PROCESS_COUNT \<le> 9000 \<longrightarrow>
      Kernel_spawn n k \<noteq> None) \<and>
   (reachable algo k \<longrightarrow> length (processes k) \<le> MAX_PROCESS_COUNT)"
proof -
  have 1: "\<exists>new. processes k' = processes k @ new \<and>
             length new = min n (MAX_PROCESS_COUNT - length (processes k)) \<and>
             distinct (map fst new) \<and>
             (\<forall>e \<in> set new. pid (snd e) = fst e \<and> \<not> Map_has (processes k) (fst e) \<and>
                           1000 \<le> fst e \<and> fst e \<le> 9999)"
    if call: "processes k = [] \<or> n \<le> MAX_PROCESS_COUNT - length (processes k)"
      and sp: "Kernel_spawn n k = Some k'"
  proof -
    from Kernel_spawn_result [OF sp] obtain new where
      l: "length new = min n MAX_PROCESS_COUNT" and s: "spawned k k' new"
      by blast
    from call have "min n MAX_PROCESS_COUNT = min n (MAX_PROCESS_COUNT - length (processes k))"
      by auto
    with l s show ?thesis
      by (intro exI [of _ new]) (simp add: spawned_def Map_has_def)
  qed
  have 2: "Kernel_spawn n k \<noteq> None"
    if "fair (random k) \<and> length (processes k) + min n MAX_PROCESS_COUNT \<le> 9000"
    using that Kernel_spawn_returns by blast
  have 3: "length (processes k) \<le> MAX_PROCESS_COUNT" if "reachable algo k"
    using that by (rule reachable_length)
  from 1 2 3 show ?thesis by blast
qed

text \<open>The example kernel with the fair source.\<close>

definition fair_kernel :: Kernel where
  "fair_kernel = example_kernel\<lparr>random := fair_source\<rparr>"

theorem spawn_count_witness:
  "3 \<le> MAX_PROCESS_COUNT - length (processes fair_kernel) \<and>
   (\<exists>k'. Kernel_spawn 3 fair_kernel = Some k' \<and>
         length (processes k') = length (processes fair_kernel) + 3) \<and>
   (\<exists>k. new_Kernel ''constructor'' fair_source = Some (Inr k) \<and> reachable ''constructor'' k \<and>
        length (processes k) \<le> 25)"
proof -
  have f: "fair (random fair_kernel)"
    by (simp add: fair_kernel_def fair_fair_source)
  have l: "length (processes fair_kernel) + min 3 MAX_PROCESS_COUNT \<le> 9000"
    by (simp add: fair_kernel_def example_kernel_def MAX_PROCESS_COUNT_def)
  have c: "3 \<le> MAX_PROCESS_COUNT - length (processes fair_kernel)"
    by (simp add: fair_kernel_def example_kernel_def MAX_PROCESS_COUNT_def)
  from spawn_count [of fair_kernel 3] f l obtain k' where k': "Kernel_spawn 3 fair_kernel = Some k'"
    by blast
  with spawn_count [of fair_kernel 3 k' "''clock''"] c
  obtain new where "processes k' = processes fair_kernel @ new" "length new = 3"
    by auto
  then have a: "length (processes k') = length (processes fair_kernel) + 3"
    by simp
  have "REPLACER ''constructor'' = Some ObjectFunction" "new_Replacer ObjectFunction = Inr KernelItself"
    by (simp_all add: REPLACER_def new_Replacer_def)
  from new_Kernel_returns [OF fair_fair_source this] obtain k where
    k: "new_Kernel ''constructor'' fair_source = Some (Inr k)"
    by blast
  then have r: "reachable ''constructor'' k" by (rule reachable.constructed)
  with spawn_count [of k 0 k "''constructor''"] have "length (processes k) \<le> 25"
    by (simp add: MAX_PROCESS_COUNT_def)
  with c k' a k r show ?thesis by blast
qed

section \<open>The random source along a run\<close>

text \<open>
  Every operation leaves the random source at a later position of the same stream, so a
  fair source stays fair; with a fair source an iteration of the main loop returns.
\<close>

lemma clock_loop_random: "random (fst (snd (clock_loop bt h k))) = random k"
proof (induction bt h k rule: clock_loop.induct)
  case (1 bt h k)
  show ?case
    using "1.IH"
    by (subst clock_loop.simps) (auto simp: Let_def split_beta split: option.splits)
qed


definition advances :: "rng \<Rightarrow> rng \<Rightarrow> bool" where
  "advances rs rs' = (\<exists>i. rs' = sdrop i rs)"

lemma advances_refl [simp]: "advances rs rs"
  unfolding advances_def by (rule exI [of _ 0]) simp

lemma advances_trans: "advances rs rs' \<Longrightarrow> advances rs' rs'' \<Longrightarrow> advances rs rs''"
proof -
  assume "advances rs rs'" and "advances rs' rs''"
  then obtain i j where "rs' = sdrop i rs" "rs'' = sdrop j rs'"
    unfolding advances_def by blast
  then have "rs'' = sdrop (i + j) rs" by (simp only: sdrop_add)
  then show ?thesis unfolding advances_def ..
qed

lemma advances_stl [simp]: "advances rs (stl rs)"
  unfolding advances_def by (rule exI [of _ 1]) simp

lemma advances_stl_trans: "advances (stl rs) rs' \<Longrightarrow> advances rs rs'"
  using advances_stl by (rule advances_trans)

lemma fair_advances: "fair rs \<Longrightarrow> advances rs rs' \<Longrightarrow> fair rs'"
  by (auto simp: advances_def fair_sdrop)

lemma Kernel_replace_advances: "advances (random k) (random (snd (Kernel_replace k)))"
proof (cases "replacer k")
  case (ClockReplacer hand)
  then show ?thesis
    using clock_loop_random [of "busyTable (mmu k)" _ k]
    by (cases hand) (simp_all add: Kernel_replace_def ClockReplacer_replace_def Let_def split_beta)
next
  case RandomReplacer
  then show ?thesis
    by (simp add: Kernel_replace_def RandomReplacer_replace_def choose_arr_def Let_def
        split: option.splits)
next
  case KernelItself
  then show ?thesis by (simp add: Kernel_replace_def)
qed

lemma bind_pte_random [simp]: "random (snd (bind_pte p pg len f k)) = random k"
  by (simp add: bind_pte_def)

lemma Kernel_handlePageFault_advances:
  "advances (random k) (random (snd (Kernel_handlePageFault p pg k)))"
proof -
  let ?k3 = "k\<lparr>accessStats := (accessStats k)\<lparr>faults := faults (accessStats k) + 1\<rparr>,
               mmu := snd (MMU_alloc p pg (mmu k)),
               accessStats := (accessStats k)\<lparr>faults := faults (accessStats k) + 1,
                                              replaced := replaced (accessStats k) + 1\<rparr>\<rparr>"
  have "random (snd (Kernel_handlePageFault p pg k)) = random k \<or>
        random (snd (Kernel_handlePageFault p pg k)) = random (snd (Kernel_replace ?k3))"
    by (simp add: Kernel_handlePageFault_def Let_def split_beta
        split: option.splits sum.splits)
  moreover have "advances (random k) (random (snd (Kernel_replace ?k3)))"
    using Kernel_replace_advances [of ?k3] by simp
  ultimately show ?thesis by auto
qed

lemma Kernel_syscall_advances: "advances (random k) (random (snd (Kernel_syscall sc k)))"
proof -
  have d: "random (snd (Kernel_dispatch sc k)) = random k"
    by (simp add: Kernel_dispatch_def Kernel_terminateProcess_def split_beta
        split: Syscall.splits option.splits sum.splits)
  have "advances (random (snd (Kernel_dispatch sc k))) (random (snd (Kernel_syscall sc k)))"
    using Kernel_handlePageFault_advances [of "snd (Kernel_dispatch sc k)"]
    by (simp add: Kernel_syscall_def Kernel_handleException_def split_beta
        split: sum.splits thrown.splits)
  with d show ?thesis by simp
qed

lemma Process_step_advances: "advances rs (snd (snd (Process_step this rs)))"
proof -
  let ?this1 = "this\<lparr>counter := counter this + 1\<rparr>"
  obtain i where i: "snd (snd (rotate_loop [0..<length (pageTable this)] [] [] (stl rs))) =
                       sdrop i (stl rs)"
    using rotate_loop_rng by blast
  have r: "advances rs (snd (Process_rotate ?this1 rs))"
    unfolding advances_def
    by (rule exI [of _ "Suc i"]) (simp add: Process_rotate_def rand_def split_beta i)
  have three: "advances rs' (stl (stl (stl rs')))" for rs' :: rng
    unfolding advances_def by (rule exI [of _ 3]) (simp add: numeral_3_eq_3)
  show ?thesis
  proof (cases "ttl this \<le> counter this")
    case True
    then show ?thesis by (simp add: Process_step_exit)
  next
    case False
    let ?rs1 = "snd (if workingSetTtl ?this1 \<le> counter this then Process_rotate ?this1 rs
                     else (?this1, rs))"
    from r have "advances rs ?rs1" by simp
    moreover from False have "snd (snd (Process_step this rs)) = stl (stl (stl ?rs1))"
      by (simp add: Process_step_def Let_def split_beta roll_def choose_arr_def)
    ultimately show ?thesis using three [of ?rs1] by (auto intro: advances_trans)
  qed
qed

lemma Process_run_advances: "advances (random k) (random (snd (Process_run p k)))"
proof (cases "map_of (processes k) p")
  case None
  then show ?thesis by (simp add: Process_run_dead)
next
  case (Some this)
  let ?st = "Process_step this (random k)"
  let ?k1 = "k\<lparr>processes := Map_set p (fst (snd ?st)) (processes k), random := snd (snd ?st)\<rparr>"
  have "random (snd (Process_run p k)) = random (snd (Kernel_syscall (fst (fst ?st)) ?k1))"
    using Some by (simp add: Process_run_def split_beta split: sum.splits)
  moreover have "advances (random ?k1) (random (snd (Kernel_syscall (fst (fst ?st)) ?k1)))"
    by (rule Kernel_syscall_advances)
  moreover have "advances (random k) (random ?k1)"
    using Process_step_advances [of "random k" this] by simp
  ultimately show ?thesis by (auto intro: advances_trans)
qed

lemma run_steps_advances: "advances (random k) (random (snd (run_steps n p k)))"
proof (induction n arbitrary: k)
  case 0
  show ?case by simp
next
  case (Suc n)
  let ?k0 = "k\<lparr>accessStats := (accessStats k)\<lparr>total := total (accessStats k) + 1\<rparr>\<rparr>"
  have a: "advances (random k) (random (snd (Process_run p ?k0)))"
    using Process_run_advances [of ?k0 p] by simp
  have b: "advances (random (snd (Process_run p ?k0)))
             (random (snd (run_steps n p (snd (Process_run p ?k0)))))"
    by (rule Suc.IH)
  from a b have c: "advances (random k) (random (snd (run_steps n p (snd (Process_run p ?k0)))))"
    by (rule advances_trans)
  from a c show ?case
    by (cases "Process_run p ?k0") (auto split: sum.splits)
qed

lemma run_processes_advances: "advances (random k) (random (snd (run_processes ps k)))"
proof (induction ps arbitrary: k)
  case Nil
  show ?case by simp
next
  case (Cons p ps)
  let ?k0 = "k\<lparr>random := snd (rand 64 128 (random k))\<rparr>"
  let ?k1 = "snd (run_steps (fst (rand 64 128 (random k))) p ?k0)"
  have "advances (random k) (random ?k0)" by (simp add: rand_def)
  moreover have "advances (random ?k0) (random ?k1)" by (rule run_steps_advances)
  ultimately have a: "advances (random k) (random ?k1)" by (rule advances_trans)
  have "advances (random ?k1) (random (snd (run_processes ps ?k1)))" by (rule Cons.IH)
  with a have c: "advances (random k) (random (snd (run_processes ps ?k1)))"
    by (rule advances_trans)
  from a c show ?case
    by (cases "run_steps (fst (rand 64 128 (random k))) p ?k0")
       (auto simp: split_beta split: sum.splits)
qed

lemma Kernel_tick_returns:
  assumes inv: "kernel_inv k" and len: "length (processes k) \<le> MAX_PROCESS_COUNT"
    and fair: "fair (random k)"
  shows "\<exists>r k'. Kernel_tick k = Some (r, k') \<and> fair (random k')"
proof -
  let ?k1 = "snd (run_processes (map fst (processes k)) k)"
  have f1: "fair (random ?k1)"
    using fair run_processes_advances by (rule fair_advances)
  from run_processes_bounded [OF inv, of "map fst (processes k)"] len
  have len1: "length (processes ?k1) \<le> MAX_PROCESS_COUNT" by simp
  let ?rs = "snd (roll double_0_45 (random ?k1))"
  let ?count = "fst (rand 1 3 ?rs)"
  let ?k2 = "?k1\<lparr>random := snd (rand 1 3 ?rs)\<rparr>"
  let ?n = "min ?count (MAX_PROCESS_COUNT - length (processes ?k1))"
  have f2: "fair ?rs" using f1 by (rule fair_advances) (simp add: roll_def)
  then have f3: "fair (random ?k2)" by (rule fair_advances) (simp add: rand_def)
  moreover from len1 have "length (processes ?k2) + min ?n MAX_PROCESS_COUNT \<le> 9000"
    by (simp add: MAX_PROCESS_COUNT_def)
  ultimately have "Kernel_spawn ?n ?k2 \<noteq> None" by (rule Kernel_spawn_returns)
  then obtain k' where sp: "Kernel_spawn ?n ?k2 = Some k'" by auto
  from Kernel_spawn_result [OF this] obtain new where "spawned ?k2 k' new" by blast
  then have "advances (random ?k2) (random k')" by (simp add: spawned_def advances_def)
  with f3 have f4: "fair (random k')" by (rule fair_advances)
  show ?thesis
    using sp f1 f2 f4
    by (cases "run_processes (map fst (processes k)) k")
       (auto simp: Kernel_tick_def split_beta split: sum.splits)
qed

section \<open>The MMU invariant along a run\<close>

text \<open>
  The invariant of the MMU state is kept by \<^verbatim>\<open>alloc\<close>, by \<^verbatim>\<open>free\<close>, and by \<^verbatim>\<open>realloc\<close> on a
  busy frame; the replacers do not touch the MMU. The kernel calls \<^verbatim>\<open>realloc\<close> only with
  the frame of the victim, which is busy under the kernel invariant, so that the MMU
  invariant holds in every state that the constructor and the main loop reach.
\<close>

lemma MMU_alloc_mmu_inv:
  assumes "mmu_inv m"
  shows "mmu_inv (snd (MMU_alloc p pg m))"
proof (cases "freeTable m = []")
  case True
  with assms show ?thesis by (simp add: MMU_alloc_def)
next
  case False
  let ?f = "last (freeTable m)"
  from False have fin: "?f \<in> set (freeTable m)" by simp
  with assms have flt: "?f < length (frameTable m)" and fnb: "?f \<notin> set (busyTable m)"
    by (auto dest: mmu_inv_free_valid mmu_inv_free_not_busy)
  note bl = append_butlast_last_id [OF False]
  from assms have d: "distinct (freeTable m)" by (simp add: mmu_inv_def)
  then have "distinct (butlast (freeTable m) @ [?f])" by (simp only: bl)
  then have nb: "?f \<notin> set (butlast (freeTable m))" and db: "distinct (butlast (freeTable m))"
    by simp_all
  have "set (freeTable m) = set (butlast (freeTable m) @ [?f])" by (simp only: bl)
  then have sf: "set (freeTable m) = insert ?f (set (butlast (freeTable m)))" by simp
  let ?m' = "m\<lparr>freeTable := butlast (freeTable m),
                frameTable := (frameTable m)[?f := (frameTable m ! ?f)\<lparr>busy := True, frame_pid := p, frame_page := pg\<rparr>],
                busyTable := busyTable m @ [?f]\<rparr>"
  have a: "snd (MMU_alloc p pg m) = ?m'"
    using False flt fnb by (simp add: MMU_alloc_def MMU_get_def Let_def Set_add_def)
  have "mmu_inv ?m'"
    using assms fnb nb db sf flt
    unfolding mmu_inv_def by (auto simp: nth_list_update)
  with a show ?thesis by simp
qed


lemma MMU_free_mmu_inv:
  assumes "mmu_inv m"
  shows "mmu_inv (snd (MMU_free f m))"
proof (cases "f \<in> set (busyTable m)")
  case False
  with assms show ?thesis by (simp add: MMU_free_not_busy)
next
  case True
  with assms have flt: "f < length (frameTable m)" by (rule mmu_inv_busy_valid)
  from assms True have nf: "f \<notin> set (freeTable m)" by (auto simp: mmu_inv_def)
  let ?m' = "m\<lparr>frameTable :=
                 (frameTable m)[f := (frameTable m ! f)\<lparr>busy := False, frame_pid := 0, frame_page := 0\<rparr>],
               busyTable := removeAll f (busyTable m),
               freeTable := freeTable m @ [f]\<rparr>"
  have "mmu_inv ?m'"
    using assms True nf flt
    unfolding mmu_inv_def by (auto simp: nth_list_update distinct_removeAll)
  then show ?thesis by (simp add: MMU_free_busy [OF True flt])
qed

lemma MMU_realloc_mmu_inv:
  assumes "mmu_inv m" and "f \<in> set (busyTable m)"
  shows "mmu_inv (snd (MMU_realloc f p pg m))"
proof -
  from assms have flt: "f < length (frameTable m)" by (rule mmu_inv_busy_valid)
  then have "snd (MMU_realloc f p pg m) =
               m\<lparr>frameTable := (frameTable m)[f := (frameTable m ! f)\<lparr>busy := True, frame_pid := p, frame_page := pg\<rparr>]\<rparr>"
    by (simp add: MMU_realloc_def MMU_get_def)
  moreover have "mmu_inv (m\<lparr>frameTable := (frameTable m)[f := (frameTable m ! f)\<lparr>busy := True, frame_pid := p, frame_page := pg\<rparr>]\<rparr>)"
    using assms flt unfolding mmu_inv_def by (auto simp: nth_list_update)
  ultimately show ?thesis by simp
qed

lemma free_loop_mmu_inv: "mmu_inv m \<Longrightarrow> mmu_inv (snd (free_loop ptes m))"
proof (induction ptes arbitrary: m)
  case Nil
  then show ?case by simp
next
  case (Cons pte ptes)
  show ?case
  proof (cases "presented pte")
    case False
    with Cons show ?thesis by simp
  next
    case True
    show ?thesis
    proof (cases "frame pte")
      case None
      with True Cons show ?thesis by simp
    next
      case (Some f)
      from Cons.prems have 1: "mmu_inv (snd (MMU_free f m))" by (rule MMU_free_mmu_inv)
      then have 2: "mmu_inv (snd (free_loop ptes (snd (MMU_free f m))))" by (rule Cons.IH)
      from 1 2 True Some show ?thesis
        by (cases "MMU_free f m") (auto split: sum.splits)
    qed
  qed
qed

lemma new_MMU_mmu_inv: "mmu_inv (fst (new_MMU rs))"
  by (auto simp: new_MMU_def mmu_inv_def split_beta new_Frame_def)

lemma clock_loop_mmu: "mmu (fst (snd (clock_loop bt h k))) = mmu k"
proof (induction bt h k rule: clock_loop.induct)
  case (1 bt h k)
  show ?case
    using "1.IH"
    by (subst clock_loop.simps) (auto simp: Let_def split_beta split: option.splits)
qed

lemma Kernel_replace_mmu: "mmu (snd (Kernel_replace k)) = mmu k"
proof (cases "replacer k")
  case (ClockReplacer hand)
  then show ?thesis
    using clock_loop_mmu [of "busyTable (mmu k)" _ k]
    by (cases hand) (simp_all add: Kernel_replace_def ClockReplacer_replace_def Let_def split_beta)
next
  case RandomReplacer
  then show ?thesis
    by (simp add: Kernel_replace_def RandomReplacer_replace_def choose_arr_def Let_def
        split: option.splits)
next
  case KernelItself
  then show ?thesis by (simp add: Kernel_replace_def)
qed

lemma bind_pte_mmu [simp]: "mmu (snd (bind_pte p pg len f k)) = mmu k"
  by (simp add: bind_pte_def)

lemma Kernel_handlePageFault_mmu_inv:
  assumes inv: "kernel_inv k" and m: "mmu_inv (mmu k)"
  shows "mmu_inv (mmu (snd (Kernel_handlePageFault p pg k)))"
proof -
  let ?k1 = "k\<lparr>accessStats := (accessStats k)\<lparr>faults := faults (accessStats k) + 1\<rparr>\<rparr>"
  let ?k3 = "?k1\<lparr>mmu := mmu k,
                  accessStats := (accessStats ?k1)\<lparr>replaced := replaced (accessStats ?k1) + 1\<rparr>\<rparr>"
  show ?thesis
  proof (cases "map_of (processes k) p")
    case None
    with m show ?thesis by (simp add: Kernel_handlePageFault_def)
  next
    case (Some process)
    show ?thesis
    proof (cases "freeTable (mmu k) = []")
      case False
      have "mmu (snd (Kernel_handlePageFault p pg k)) = snd (MMU_alloc p pg (mmu k))"
        using Some False
        by (auto simp: Kernel_handlePageFault_def Let_def MMU_alloc_def split: option.splits)
      with m show ?thesis by (simp add: MMU_alloc_mmu_inv)
    next
      case True
      then have a: "MMU_alloc p pg (mmu k) = (Inr (- 1), mmu k)"
        by (simp add: MMU_alloc_def)
      have inv3: "kernel_inv ?k3" using inv by simp
      from inv True have "busyTable (mmu ?k3) \<noteq> []"
        by (simp add: kernel_inv_def inv_except_def)
      from Kernel_replace_ok [OF inv3 this] obtain f k4 where
        f: "f \<in> set (busyTable (mmu k))"
        and rep: "Kernel_replace ?k3 = (Inr (frame_ref ?k3 f), k4)"
        and m4: "mmu k4 = mmu k"
        and inv4: "kernel_inv k4"
        by auto
      have v: "frame_ref k4 f = frame_ref k f" by (simp add: frame_ref_def m4)
      from inv4 f m4 have "frame_bound k4 f" by (simp add: kernel_inv_def inv_except_def)
      then obtain vpte where vp: "pte_at k4 (frame_ref k f) = Some vpte" "frame vpte = Some f"
        by (auto simp: frame_bound_def v split: option.splits)
      have "mmu (snd (Kernel_handlePageFault p pg k)) = snd (MMU_realloc f p pg (mmu k))"
        using Some a rep vp m4
        by (simp add: Kernel_handlePageFault_def Let_def split_beta split: sum.splits)
      with m f show ?thesis by (simp add: MMU_realloc_mmu_inv)
    qed
  qed
qed

lemma Kernel_syscall_mmu_inv:
  assumes inv: "kernel_inv k" and m: "mmu_inv (mmu k)"
  shows "mmu_inv (mmu (snd (Kernel_syscall sc k)))"
proof (cases sc)
  case (Exit p)
  show ?thesis
  proof (cases "map_of (processes k) p")
    case None
    with m show ?thesis
      by (simp add: Kernel_syscall_def Kernel_dispatch_def Exit Kernel_terminateProcess_def
          Kernel_handleException_def)
  next
    case (Some process)
    from Kernel_terminateProcess_ok [OF inv Some] obtain k' where
      t: "Kernel_terminateProcess p k = (Inr (), k')" by blast
    then have "mmu k' = snd (free_loop (pageTable process) (mmu k))"
      using Some
      by (auto simp: Kernel_terminateProcess_def split_beta split: sum.splits)
    with m t show ?thesis
      by (simp add: Kernel_syscall_def Kernel_dispatch_def Exit free_loop_mmu_inv)
  qed
next
  case (AccessMemory p pg b)
  show ?thesis
  proof (cases "map_of (processes k) p")
    case None
    with m show ?thesis
      by (simp add: Kernel_syscall_def Kernel_dispatch_def AccessMemory Kernel_handleException_def)
  next
    case (Some process)
    let ?pt = "pageTable process"
    have same: "k\<lparr>processes := Map_modify p (\<lambda>pr. pr\<lparr>pageTable := ?pt\<rparr>) (processes k), mmu := mmu k\<rparr> = k"
      using Map_modify_id [OF Some, of "\<lambda>pr. pr\<lparr>pageTable := ?pt\<rparr>"] by simp
    have "mmu (snd (Kernel_syscall sc k)) = mmu k \<or>
          (\<exists>i. mmu (snd (Kernel_syscall sc k)) = mmu (snd (Kernel_handlePageFault p i k)))"
      using Some same
      by (auto simp: Kernel_syscall_def Kernel_dispatch_def AccessMemory Kernel_handleException_def
          MMU_access_def Let_def split: option.splits)
    with m Kernel_handlePageFault_mmu_inv [OF inv m] show ?thesis by auto
  qed
qed


lemma Process_run_mmu_inv:
  assumes inv: "kernel_inv k" and m: "mmu_inv (mmu k)"
  shows "mmu_inv (mmu (snd (Process_run p k)))"
proof (cases "map_of (processes k) p")
  case None
  with m show ?thesis by (simp add: Process_run_dead)
next
  case (Some this)
  obtain sc t this' rs' where st: "Process_step this (random k) = ((sc, t), this', rs')"
    by (metis prod.exhaust)
  have f: "pid this' = pid this \<and> pageTable this' = pageTable this"
  proof (cases "ttl this \<le> counter this")
    case True
    with st show ?thesis by (auto simp: Process_step_exit)
  next
    case False
    then have "counter this < ttl this" by simp
    from Process_step_access [OF this, of "random k"] st show ?thesis by auto
  qed
  let ?k1 = "k\<lparr>processes := Map_set p this' (processes k), random := rs'\<rparr>"
  have "kernel_inv (k\<lparr>processes := Map_set p this' (processes k)\<rparr>)"
    using inv Some f by (intro inv_Map_set) simp_all
  then have inv1: "kernel_inv ?k1" by simp
  from m have m1: "mmu_inv (mmu ?k1)" by simp
  from Kernel_syscall_ok [OF inv1, of sc] obtain k' where
    k': "Kernel_syscall sc ?k1 = (Inr (), k')" by blast
  from Kernel_syscall_mmu_inv [OF inv1 m1, of sc] k' have "mmu_inv (mmu k')" by simp
  moreover have "Process_run p k = (Inr t, k')"
    using Some st k' by (simp add: Process_run_def)
  ultimately show ?thesis by simp
qed

lemma run_steps_mmu_inv:
  "kernel_inv k \<Longrightarrow> mmu_inv (mmu k) \<Longrightarrow> mmu_inv (mmu (snd (run_steps n p k)))"
proof (induction n arbitrary: k)
  case 0
  then show ?case by simp
next
  case (Suc n)
  let ?k0 = "k\<lparr>accessStats := (accessStats k)\<lparr>total := total (accessStats k) + 1\<rparr>\<rparr>"
  from Suc.prems have i0: "kernel_inv ?k0" and m0: "mmu_inv (mmu ?k0)" by simp_all
  from Process_run_bounded [OF i0, of p]
  have a: "kernel_inv (snd (Process_run p ?k0))" by simp
  from Process_run_mmu_inv [OF i0 m0, of p]
  have b: "mmu_inv (mmu (snd (Process_run p ?k0)))" .
  from Suc.IH [OF a b]
  have "mmu_inv (mmu (snd (run_steps n p (snd (Process_run p ?k0)))))" .
  with b show ?case
    by (cases "Process_run p ?k0") (auto split: sum.splits)
qed

lemma run_processes_mmu_inv:
  "kernel_inv k \<Longrightarrow> mmu_inv (mmu k) \<Longrightarrow> mmu_inv (mmu (snd (run_processes ps k)))"
proof (induction ps arbitrary: k)
  case Nil
  then show ?case by simp
next
  case (Cons p ps)
  let ?k0 = "k\<lparr>random := snd (rand 64 128 (random k))\<rparr>"
  let ?k1 = "snd (run_steps (fst (rand 64 128 (random k))) p ?k0)"
  from Cons.prems have i0: "kernel_inv ?k0" and m0: "mmu_inv (mmu ?k0)" by simp_all
  from run_steps_bounded [OF i0, of "fst (rand 64 128 (random k))" p]
  have a: "kernel_inv ?k1" by simp
  from run_steps_mmu_inv [OF i0 m0, of "fst (rand 64 128 (random k))" p]
  have b: "mmu_inv (mmu ?k1)" .
  from Cons.IH [OF a b]
  have "mmu_inv (mmu (snd (run_processes ps ?k1)))" .
  with b show ?case
    by (cases "run_steps (fst (rand 64 128 (random k))) p ?k0")
       (auto simp: split_beta split: sum.splits)
qed

lemma Kernel_tick_mmu_inv:
  assumes inv: "kernel_inv k" and m: "mmu_inv (mmu k)"
    and tick: "Kernel_tick k = Some (r, k')"
  shows "mmu_inv (mmu k')"
proof -
  let ?k1 = "snd (run_processes (map fst (processes k)) k)"
  from run_processes_mmu_inv [OF inv m, of "map fst (processes k)"]
  have m1: "mmu_inv (mmu ?k1)" .
  let ?rs = "snd (roll double_0_45 (random ?k1))"
  let ?count = "fst (rand 1 3 ?rs)"
  let ?k2 = "?k1\<lparr>random := snd (rand 1 3 ?rs)\<rparr>"
  consider (stay) "k' = ?k1 \<or> k' = ?k1\<lparr>random := ?rs\<rparr>"
    | (spawn) "Kernel_spawn (min ?count (MAX_PROCESS_COUNT - length (processes ?k1))) ?k2 = Some k'"
    using tick
    by (cases "run_processes (map fst (processes k)) k")
       (auto simp: Kernel_tick_def split_beta split: sum.splits if_splits)
  then show ?thesis
  proof cases
    case stay
    with m1 show ?thesis by auto
  next
    case spawn
    from Kernel_spawn_result [OF spawn] obtain new where "spawned ?k2 k' new" by blast
    then have "mmu k' = mmu ?k1" by (simp add: spawned_def)
    with m1 show ?thesis by simp
  qed
qed

text \<open>
  When the replacer is the kernel itself, the kernel invariant does not hold, and it is
  not needed: \<^verbatim>\<open>realloc\<close> is never reached, because the call of \<^verbatim>\<open>replace\<close> before it throws.
\<close>

definition itself_inv :: "Kernel \<Rightarrow> bool" where
  "itself_inv k = (replacer k = KernelItself \<and> mmu_inv (mmu k))"

lemma update_pte_replacer [simp]: "replacer (update_pte r g k) = replacer k"
  by (simp add: update_pte_def)

lemma update_pte_mmu [simp]: "mmu (update_pte r g k) = mmu k"
  by (simp add: update_pte_def)

lemma Kernel_handlePageFault_itself:
  assumes "itself_inv k"
  shows "itself_inv (snd (Kernel_handlePageFault p pg k))"
proof -
  from assms have r: "replacer k = KernelItself" and m: "mmu_inv (mmu k)"
    by (simp_all add: itself_inv_def)
  have "replacer (snd (Kernel_handlePageFault p pg k)) = KernelItself"
    using r
    by (simp add: Kernel_handlePageFault_def Kernel_replace_def bind_pte_def Let_def split_beta
        split: option.splits sum.splits)
  moreover have "mmu (snd (Kernel_handlePageFault p pg k)) = mmu k \<or>
                 mmu (snd (Kernel_handlePageFault p pg k)) = snd (MMU_alloc p pg (mmu k))"
    using r
    by (simp add: Kernel_handlePageFault_def Kernel_replace_def bind_pte_def Let_def split_beta
        split: option.splits sum.splits)
  ultimately show ?thesis
    using m MMU_alloc_mmu_inv [OF m, of p pg] by (auto simp: itself_inv_def)
qed

lemma Kernel_dispatch_itself:
  assumes "itself_inv k"
  shows "itself_inv (snd (Kernel_dispatch sc k))"
proof -
  from assms have r: "replacer k = KernelItself" and m: "mmu_inv (mmu k)"
    by (simp_all add: itself_inv_def)
  have "replacer (snd (Kernel_dispatch sc k)) = KernelItself"
    using r
    by (simp add: Kernel_dispatch_def Kernel_terminateProcess_def split_beta
        split: Syscall.splits option.splits sum.splits)
  moreover have "mmu (snd (Kernel_dispatch sc k)) = mmu k \<or>
                 (\<exists>pt. mmu (snd (Kernel_dispatch sc k)) = snd (free_loop pt (mmu k)))"
    by (auto simp: Kernel_dispatch_def Kernel_terminateProcess_def MMU_access_def Let_def
        split_beta split: Syscall.splits option.splits sum.splits)
  ultimately show ?thesis
    using m free_loop_mmu_inv [OF m] by (auto simp: itself_inv_def)
qed

lemma Kernel_syscall_itself:
  assumes "itself_inv k"
  shows "itself_inv (snd (Kernel_syscall sc k))"
proof -
  let ?k1 = "snd (Kernel_dispatch sc k)"
  from assms have 1: "itself_inv ?k1" by (rule Kernel_dispatch_itself)
  have "snd (Kernel_syscall sc k) = ?k1 \<or>
        (\<exists>p pg. snd (Kernel_syscall sc k) = snd (Kernel_handlePageFault p pg ?k1))"
    by (auto simp: Kernel_syscall_def Kernel_handleException_def split_beta
        split: sum.splits thrown.splits)
  with 1 Kernel_handlePageFault_itself [OF 1] show ?thesis by auto
qed

lemma Process_run_itself:
  assumes "itself_inv k"
  shows "itself_inv (snd (Process_run p k))"
proof (cases "map_of (processes k) p")
  case None
  with assms show ?thesis by (simp add: Process_run_dead)
next
  case (Some this)
  obtain sc t this' rs' where st: "Process_step this (random k) = ((sc, t), this', rs')"
    by (metis prod.exhaust)
  let ?k1 = "k\<lparr>processes := Map_set p this' (processes k), random := rs'\<rparr>"
  from assms have "itself_inv ?k1" by (simp add: itself_inv_def)
  then have "itself_inv (snd (Kernel_syscall sc ?k1))" by (rule Kernel_syscall_itself)
  moreover have "snd (Process_run p k) = snd (Kernel_syscall sc ?k1)"
    using Some st by (simp add: Process_run_def split_beta split: sum.splits)
  ultimately show ?thesis by simp
qed

lemma run_steps_itself: "itself_inv k \<Longrightarrow> itself_inv (snd (run_steps n p k))"
proof (induction n arbitrary: k)
  case 0
  then show ?case by simp
next
  case (Suc n)
  let ?k0 = "k\<lparr>accessStats := (accessStats k)\<lparr>total := total (accessStats k) + 1\<rparr>\<rparr>"
  from Suc.prems have "itself_inv ?k0" by (simp add: itself_inv_def)
  then have a: "itself_inv (snd (Process_run p ?k0))" by (rule Process_run_itself)
  then have "itself_inv (snd (run_steps n p (snd (Process_run p ?k0))))" by (rule Suc.IH)
  with a show ?case
    by (cases "Process_run p ?k0") (auto split: sum.splits)
qed

lemma run_processes_itself: "itself_inv k \<Longrightarrow> itself_inv (snd (run_processes ps k))"
proof (induction ps arbitrary: k)
  case Nil
  then show ?case by simp
next
  case (Cons p ps)
  let ?k0 = "k\<lparr>random := snd (rand 64 128 (random k))\<rparr>"
  let ?k1 = "snd (run_steps (fst (rand 64 128 (random k))) p ?k0)"
  from Cons.prems have "itself_inv ?k0" by (simp add: itself_inv_def)
  then have a: "itself_inv ?k1" by (rule run_steps_itself)
  then have "itself_inv (snd (run_processes ps ?k1))" by (rule Cons.IH)
  with a show ?case
    by (cases "run_steps (fst (rand 64 128 (random k))) p ?k0")
       (auto simp: split_beta split: sum.splits)
qed

lemma spawned_itself: "itself_inv k \<Longrightarrow> spawned k k' new \<Longrightarrow> itself_inv k'"
  by (simp add: itself_inv_def spawned_def)

lemma Kernel_tick_itself:
  assumes "itself_inv k" and tick: "Kernel_tick k = Some (r, k')"
  shows "itself_inv k'"
proof -
  let ?k1 = "snd (run_processes (map fst (processes k)) k)"
  from assms(1) have 1: "itself_inv ?k1" by (rule run_processes_itself)
  from Kernel_tick_spawn_call [OF tick]
  consider (stay) "k' = ?k1 \<or> (\<exists>rs. k' = ?k1\<lparr>random := rs\<rparr>)"
    | (spawn) n rs where "Kernel_spawn n (?k1\<lparr>random := rs\<rparr>) = Some k'"
    by blast
  then show ?thesis
  proof cases
    case stay
    with 1 show ?thesis by (auto simp: itself_inv_def)
  next
    case spawn
    from Kernel_spawn_result [OF spawn] obtain new where "spawned (?k1\<lparr>random := rs\<rparr>) k' new"
      by blast
    moreover from 1 have "itself_inv (?k1\<lparr>random := rs\<rparr>)" by (simp add: itself_inv_def)
    ultimately show ?thesis by (rule spawned_itself [rotated])
  qed
qed

text \<open>
  Every state that the constructor and the main loop reach, whatever the name of the
  algorithm, satisfies the invariant of the MMU, and either the kernel invariant or, when
  the replacer is the kernel itself, nothing more.
\<close>

definition run_inv :: "Kernel \<Rightarrow> bool" where
  "run_inv k = (mmu_inv (mmu k) \<and> (kernel_inv k \<or> replacer k = KernelItself))"

lemma new_Kernel_run_inv:
  assumes "new_Kernel algo rs = Some (Inr k)"
  shows "run_inv k"
proof -
  from new_Kernel_spawn_call [OF assms] obtain c r count k0 where c: "REPLACER algo = Some c"
    and r: "new_Replacer c = Inr r"
    and k0: "k0 = \<lparr>replacer = r, processes = [], mmu = fst (new_MMU rs),
                   accessStats = \<lparr>total = 0, faults = 0, replaced = 0\<rparr>,
                   random = snd (rand 5 10 (snd (new_MMU rs)))\<rparr>"
    and sp: "Kernel_spawn count k0 = Some k"
    by blast
  from Kernel_spawn_result [OF sp] obtain new where s: "spawned k0 k new" by blast
  then have "mmu k = fst (new_MMU rs)" "replacer k = r" by (simp_all add: spawned_def k0)
  then have m: "mmu_inv (mmu k)" and rk: "replacer k = r" by (simp_all add: new_MMU_mmu_inv)
  show ?thesis
  proof (cases "algo = ''clock'' \<or> algo = ''random''")
    case True
    with assms have "kernel_inv k" using new_Kernel_bounded by blast
    with m show ?thesis by (simp add: run_inv_def)
  next
    case False
    with c r have "r = KernelItself"
      by (auto simp: REPLACER_def new_Replacer_def split: if_splits)
    with m rk show ?thesis by (simp add: run_inv_def)
  qed
qed

lemma Kernel_tick_run_inv:
  assumes "run_inv k" and len: "length (processes k) \<le> MAX_PROCESS_COUNT"
    and tick: "Kernel_tick k = Some (r, k')"
  shows "run_inv k'"
proof -
  from assms(1) have m: "mmu_inv (mmu k)" by (simp add: run_inv_def)
  from assms(1) consider "kernel_inv k" | "itself_inv k"
    by (auto simp: run_inv_def itself_inv_def)
  then show ?thesis
  proof cases
    case 1
    from Kernel_tick_bounded [OF 1 len tick] Kernel_tick_mmu_inv [OF 1 m tick]
    show ?thesis by (simp add: run_inv_def)
  next
    case 2
    from Kernel_tick_itself [OF 2 tick] show ?thesis
      by (simp add: run_inv_def itself_inv_def)
  qed
qed

lemma reachable_run_inv: "reachable algo k \<Longrightarrow> run_inv k"
proof (induction rule: reachable.induct)
  case (constructed algo rs k)
  then show ?case by (rule new_Kernel_run_inv)
next
  case (ticked algo k r k')
  from ticked.hyps(1) have "length (processes k) \<le> MAX_PROCESS_COUNT" by (rule reachable_length)
  with ticked.IH show ?case using ticked.hyps(3) by (rule Kernel_tick_run_inv)
qed

lemma reachable_mmu_inv: "reachable algo k \<Longrightarrow> mmu_inv (mmu k)"
  using reachable_run_inv by (simp add: run_inv_def)

section \<open>A run of the program started with the name of an inherited key\<close>

text \<open>
  \<^verbatim>\<open>main\<close> passes its command-line argument to the constructor of the kernel. With the
  argument \<^verbatim>\<open>constructor\<close> the assertion of the constructor passes and the replacer of the
  kernel is the kernel itself. This section follows such a run from the constructor to the
  first page fault that finds no free frame.

  The draws: 0 for the size of the frame table (512 frames) and 0.875 for the number of
  processes (10); for process \<open>i\<close>, the draw \<open>i / 8192\<close> for its pid (\<open>1000 + i\<close>), \<open>1 - 1 / 8192\<close>
  for the length of its page table (64), and 0 for its lifetime (1024), for the lifetime
  of its working set (128) and for the 64 rolls that put every page in the working set;
  then, for each of the first eight processes, 0 for the process time (64) and, for step
  \<open>j\<close>, 0 for the roll that selects the working set, \<open>j / 64\<close> for the page (\<open>j\<close>) and 0 for the
  access mode; from then on 0.
\<close>

definition ten_draw :: draw where
  "ten_draw = of_nat (7 * 2 ^ 50)"

definition pid_draw_of :: "nat \<Rightarrow> draw" where
  "pid_draw_of i = of_nat (i * 2 ^ 40)"

definition pages_draw :: draw where
  "pages_draw = of_nat (2 ^ 53 - 2 ^ 40)"

definition page_draw :: "nat \<Rightarrow> draw" where
  "page_draw j = of_nat (j * 2 ^ 47)"

definition process_draws :: "nat \<Rightarrow> draw list" where
  "process_draws i = [pid_draw_of i, pages_draw, 0, 0] @ replicate 64 0"

definition step_draws :: "nat \<Rightarrow> draw list" where
  "step_draws j = [0, page_draw j, 0]"

definition turn_draws :: "draw list" where
  "turn_draws = 0 # concat (map step_draws [0..<64])"

definition crash_source :: rng where
  "crash_source =
     ([0, ten_draw] @ concat (map process_draws [0..<10]) @
      concat (replicate 8 turn_draws)) @- sconst 0"

definition resident :: "nat \<Rightarrow> PageTableEntry" where
  "resident f = new_PageTableEntry\<lparr>presented := True, frame := Some f\<rparr>"

definition crash_process :: "nat \<Rightarrow> nat \<Rightarrow> Process" where
  "crash_process n i =
     \<lparr>pid = 1000 + i,
      pageTable = map (\<lambda>pg. if 64 * i + pg < n then resident (511 - (64 * i + pg))
                            else new_PageTableEntry) [0..<64],
      ttl = 1024, idleSet = [], workingSet = [0..<64], workingSetTtl = 128,
      counter = min 64 (n - 64 * i)\<rparr>"

definition crash_mmu :: "nat \<Rightarrow> MMU" where
  "crash_mmu n =
     \<lparr>frameTable =
        map (\<lambda>f. if 512 - n \<le> f
                 then \<lparr>fid = f, busy = True, frame_pid = 1000 + (511 - f) div 64,
                       frame_page = (511 - f) mod 64\<rparr>
                 else new_Frame f) [0..<512],
      busyTable = rev [512 - n..<512],
      freeTable = [0..<512 - n]\<rparr>"

definition crash_kernel :: "nat \<Rightarrow> nat \<Rightarrow> rng \<Rightarrow> Kernel" where
  "crash_kernel m n rs =
     \<lparr>replacer = KernelItself,
      processes = map (\<lambda>i. (1000 + i, crash_process n i)) [0..<m],
      mmu = crash_mmu n,
      accessStats = \<lparr>total = n, faults = n, replaced = 0\<rparr>,
      random = rs\<rparr>"

lemma unat_draw_of_nat: "x < 2 ^ 53 \<Longrightarrow> unat (of_nat x :: draw) = x"
  by (simp add: unat_of_nat)

lemma floor_times_page: "j < 64 \<Longrightarrow> floor_times (page_draw j) 64 = j"
proof (rule floor_times_eqI)
  assume j: "j < 64"
  then have u: "unat (page_draw j) = j * 2 ^ 47"
    unfolding page_draw_def by (intro unat_draw_of_nat) simp
  show "j * 2 ^ 53 \<le> unat (page_draw j) * 64" unfolding u by simp
  show "unat (page_draw j) * 64 + 64 \<le> (j + 1) * 2 ^ 53" unfolding u by simp
  show "(64::nat) \<le> 2 ^ 53" by simp
qed

lemma rand_num_pid: "i < 10 \<Longrightarrow> rand_num 1000 9999 (pid_draw_of i) = 1000 + i"
proof -
  assume i: "i < 10"
  then have u: "unat (pid_draw_of i) = i * 2 ^ 40"
    unfolding pid_draw_of_def by (intro unat_draw_of_nat) simp
  have "floor_times (pid_draw_of i) 9000 = i"
  proof (rule floor_times_eqI)
    show "i * 2 ^ 53 \<le> unat (pid_draw_of i) * 9000" unfolding u by simp
    show "unat (pid_draw_of i) * 9000 + 9000 \<le> (i + 1) * 2 ^ 53"
      unfolding u using i by simp
    show "(9000::nat) \<le> 2 ^ 53" by simp
  qed
  then show ?thesis by (simp add: rand_num_def)
qed

lemma rand_num_consts:
  "rand_num 512 1024 0 = 512"
  "rand_num 5 10 ten_draw = 10"
  "rand_num 32 64 pages_draw = 64"
  "rand_num 1024 2048 0 = 1024"
  "rand_num 128 256 0 = 128"
  "rand_num 64 128 0 = 64"
proof -
  have "floor_times ten_draw 6 = 5"
    by (rule floor_times_eqI) (simp_all add: ten_draw_def unat_of_nat)
  then show "rand_num 5 10 ten_draw = 10" by (simp add: rand_num_def)
  have "floor_times pages_draw 33 = 32"
    by (rule floor_times_eqI) (simp_all add: pages_draw_def unat_of_nat)
  then show "rand_num 32 64 pages_draw = 64" by (simp add: rand_num_def)
qed (simp_all add: rand_num_def)

lemma rand_Cons: "rand lo hi (d ## rs) = (rand_num lo hi d, rs)"
  by (simp add: rand_def)

lemma rand_unique_accept:
  "\<not> unique (rand_num lo hi d) \<Longrightarrow>
   rand_unique lo hi unique (d ## rs) = Some (rand_num lo hi d, rs)"
  by (subst rand_unique.simps) simp

lemma unit_value_0 [simp]: "unit_value 0 = 0"
  by (simp add: unit_value_def)

lemma roll_0:
  "roll double_0_20 (0 ## rs) = (True, rs)"
  "roll double_0_9 (0 ## rs) = (True, rs)"
  "roll double_0_5 (0 ## rs) = (True, rs)"
  by (simp_all add: roll_def double_0_20_def double_0_9_def double_0_5_def)

lemma rotate_loop_all_working:
  "rotate_loop pages working idle (replicate (length pages) 0 @- rs) = (working @ pages, idle, rs)"
  by (induction pages arbitrary: working) (simp_all add: roll_0)

text \<open>Tables indexed by a list without repetition, under keys that are pairwise distinct.\<close>

lemma map_of_table:
  "inj_on key (set xs) \<Longrightarrow> x \<in> set xs \<Longrightarrow>
   map_of (map (\<lambda>y. (key y, g y)) xs) (key x) = Some (g x)"
  by (induction xs) (auto simp: inj_on_def)

lemma map_of_table_None:
  "a \<notin> key ` set xs \<Longrightarrow> map_of (map (\<lambda>y. (key y, g y)) xs) a = None"
  by (induction xs) auto

lemma Map_set_table:
  "inj_on key (set xs) \<Longrightarrow> distinct xs \<Longrightarrow> x \<in> set xs \<Longrightarrow>
   Map_set (key x) v (map (\<lambda>y. (key y, g y)) xs) =
     map (\<lambda>y. (key y, if y = x then v else g y)) xs"
proof (induction xs)
  case Nil
  then show ?case by simp
next
  case (Cons a xs)
  show ?case
  proof (cases "a = x")
    case True
    with Cons.prems have "x \<notin> set xs" by simp
    then have "map (\<lambda>y. (key y, if y = x then v else g y)) xs = map (\<lambda>y. (key y, g y)) xs"
      by (intro map_cong) auto
    with True show ?thesis by simp
  next
    case False
    with Cons.prems have "key a \<noteq> key x" by (auto simp: inj_on_def)
    with False Cons show ?thesis by simp
  qed
qed

lemma Map_modify_table:
  "inj_on key (set xs) \<Longrightarrow> distinct xs \<Longrightarrow> x \<in> set xs \<Longrightarrow>
   Map_modify (key x) h (map (\<lambda>y. (key y, g y)) xs) =
     map (\<lambda>y. (key y, if y = x then h (g y) else g y)) xs"
proof (induction xs)
  case Nil
  then show ?case by simp
next
  case (Cons a xs)
  show ?case
  proof (cases "a = x")
    case True
    with Cons.prems have "x \<notin> set xs" by simp
    then have "map (\<lambda>y. (key y, if y = x then h (g y) else g y)) xs = map (\<lambda>y. (key y, g y)) xs"
      by (intro map_cong) auto
    with True show ?thesis by simp
  next
    case False
    with Cons.prems have "key a \<noteq> key x" by (auto simp: inj_on_def)
    with False Cons show ?thesis by simp
  qed
qed


lemma new_MMU_crash: "new_MMU (0 ## rs) = (crash_mmu 0, rs)"
proof -
  have "map new_Frame [0..<512] =
        map (\<lambda>f. if 512 \<le> f
                 then \<lparr>fid = f, busy = True, frame_pid = 1000 + (511 - f) div 64,
                       frame_page = (511 - f) mod 64\<rparr>
                 else new_Frame f) [0..<512]"
    by (intro map_cong) auto
  then show ?thesis
    by (simp add: new_MMU_def rand_def rand_num_consts crash_mmu_def)
qed

lemma crash_process_0:
  "crash_process 0 i =
     \<lparr>pid = 1000 + i, pageTable = replicate 64 new_PageTableEntry, ttl = 1024, idleSet = [],
      workingSet = [0..<64], workingSetTtl = 128, counter = 0\<rparr>"
  by (simp add: crash_process_def map_replicate_const del: upt_Suc)

lemma new_Process_crash:
  "new_Process (1000 + i) (tl (process_draws i) @- rs) = (crash_process 0 i, rs)"
proof -
  have "rotate_loop [0..<64] [] [] (replicate 64 0 @- rs) = ([0..<64], [], rs)"
    using rotate_loop_all_working [of "[0..<64]" "[]" "[]" rs] by simp
  then show ?thesis
    by (simp add: new_Process_def Process_rotate_def process_draws_def rand_Cons rand_num_consts
        crash_process_0 del: upt_Suc)
qed

lemma crash_kernel_fresh: "\<not> Map_has (processes (crash_kernel m n rs)) (1000 + m)"
  by (auto simp: Map_has_def crash_kernel_def intro!: map_of_table_None)

lemma crash_kernel_spawn:
  "(crash_kernel m 0 rs')
     \<lparr>processes := Map_set (1000 + m) (crash_process 0 m) (processes (crash_kernel m 0 rs')),
      random := rs\<rparr> = crash_kernel (Suc m) 0 rs"
proof -
  have "Map_set (1000 + m) (crash_process 0 m) (processes (crash_kernel m 0 rs')) =
          processes (crash_kernel m 0 rs') @ [(1000 + m, crash_process 0 m)]"
    using crash_kernel_fresh [of m 0 rs'] by (simp add: Map_has_def Map_set_absent)
  then show ?thesis by (simp add: crash_kernel_def)
qed

lemma spawn_loop_crash:
  "m + n \<le> 10 \<Longrightarrow>
   spawn_loop n (crash_kernel m 0 (concat (map process_draws [m..<m + n]) @- rs)) =
     Some (crash_kernel (m + n) 0 rs)"
proof (induction n arbitrary: m)
  case 0
  then show ?case by simp
next
  case (Suc n)
  then have m: "m < 10" by simp
  define rest where "rest = concat (map process_draws [Suc m..<Suc m + n]) @- rs"
  define after_pid where "after_pid = tl (process_draws m) @- rest"
  let ?src = "pid_draw_of m ## after_pid"
  have "[m..<m + Suc n] = m # [Suc m..<Suc m + n]"
    by (subst upt_rec) simp
  then have "concat (map process_draws [m..<m + Suc n]) @- rs = process_draws m @- rest"
    by (simp add: rest_def)
  also have "process_draws m = pid_draw_of m # tl (process_draws m)"
    by (simp add: process_draws_def)
  finally have src: "concat (map process_draws [m..<m + Suc n]) @- rs = ?src"
    by (simp add: after_pid_def)
  let ?k = "crash_kernel m 0 ?src"
  have r: "random ?k = ?src" by (simp add: crash_kernel_def)
  have "\<not> Map_has (processes ?k) (rand_num 1000 9999 (pid_draw_of m))"
    using crash_kernel_fresh [of m 0 ?src] by (simp add: rand_num_pid [OF m])
  from rand_unique_accept [of "Map_has (processes ?k)" 1000 9999 "pid_draw_of m" after_pid,
      OF this]
  have u: "rand_unique 1000 9999 (Map_has (processes ?k)) (random ?k) = Some (1000 + m, after_pid)"
    by (simp only: r rand_num_pid [OF m])
  have n: "new_Process (1000 + m) after_pid = (crash_process 0 m, rest)"
    unfolding after_pid_def by (rule new_Process_crash)
  from Suc.prems have "spawn_loop n (crash_kernel (Suc m) 0 rest) =
                         Some (crash_kernel (Suc m + n) 0 rs)"
    unfolding rest_def by (intro Suc.IH) simp
  then have "spawn_loop (Suc n) ?k = Some (crash_kernel (m + Suc n) 0 rs)"
    by (simp add: u n crash_kernel_spawn)
  then show ?case by (simp only: src)
qed

definition first_kernel :: Kernel where
  "first_kernel = crash_kernel 10 0 (concat (replicate 8 turn_draws) @- sconst 0)"

lemma new_Kernel_crash: "new_Kernel ''constructor'' crash_source = Some (Inr first_kernel)"
proof -
  let ?rs = "concat (replicate 8 turn_draws) @- sconst 0"
  let ?boot = "concat (map process_draws [0..<10]) @- ?rs"
  have src: "crash_source = 0 ## ten_draw ## ?boot"
    by (simp add: crash_source_def del: upt_Suc)
  have k0: "\<lparr>replacer = KernelItself, processes = [], mmu = crash_mmu 0,
             accessStats = \<lparr>total = 0, faults = 0, replaced = 0\<rparr>, random = ?boot\<rparr> =
            crash_kernel 0 0 ?boot"
    by (simp add: crash_kernel_def)
  have sp: "spawn_loop 10 (crash_kernel 0 0 ?boot) = Some first_kernel"
    using spawn_loop_crash [of 0 10 ?rs] by (simp add: first_kernel_def del: upt_Suc)
  show ?thesis
    unfolding src
    by (simp add: new_Kernel_def REPLACER_def new_Replacer_def new_MMU_crash rand_Cons
        rand_num_consts Kernel_spawn_def MAX_PROCESS_COUNT_def k0 sp del: upt_Suc)
qed


lemma MMU_alloc_crash:
  assumes "n < 512"
  shows "MMU_alloc (1000 + n div 64) (n mod 64) (crash_mmu n) = (Inr (int (511 - n)), crash_mmu (Suc n))"
proof -
  let ?f = "511 - n"
  let ?F = "\<lambda>n f. if 512 - n \<le> f
                   then \<lparr>fid = f, busy = True, frame_pid = 1000 + (511 - f) div 64,
                         frame_page = (511 - f) mod 64\<rparr>
                   else new_Frame f"
  from assms have "512 - n = Suc (512 - Suc n)" by simp
  then have "[0..<512 - n] = [0..<512 - Suc n] @ [512 - Suc n]" by (simp only: upt_Suc_append le0)
  moreover have "512 - Suc n = ?f" by simp
  ultimately have free: "[0..<512 - n] = [0..<512 - Suc n] @ [?f]" by simp
  then have ne: "[0..<512 - n] \<noteq> []" and l: "last [0..<512 - n] = ?f"
    and b: "butlast [0..<512 - n] = [0..<512 - Suc n]"
    by simp_all
  have lt: "?f < 512" by arith
  from assms have nb: "\<not> 512 - n \<le> ?f" by arith
  have g: "MMU_get (crash_mmu n\<lparr>freeTable := [0..<512 - Suc n]\<rparr>) ?f = Some (new_Frame ?f)"
    using lt nb by (simp add: MMU_get_def crash_mmu_def del: One_nat_def)
  have s: "Set_add ?f (rev [512 - n..<512]) = rev [512 - Suc n..<512]"
  proof -
    from assms have e: "Suc ?f = 512 - n" and e': "512 - Suc n = ?f" by arith+
    have "[?f..<512] = ?f # [Suc ?f..<512]" using lt by (rule upt_conv_Cons)
    then have "[512 - Suc n..<512] = ?f # [512 - n..<512]" by (simp only: e e')
    moreover from assms have "?f \<notin> set (rev [512 - n..<512])" by auto
    ultimately show ?thesis by (simp add: Set_add_def)
  qed
  have t: "(map (?F n) [0..<512])
             [?f := new_Frame ?f\<lparr>busy := True, frame_pid := 1000 + n div 64, frame_page := n mod 64\<rparr>] =
           map (?F (Suc n)) [0..<512]"
  proof (rule nth_equalityI)
    show "length ((map (?F n) [0..<512])
             [?f := new_Frame ?f\<lparr>busy := True, frame_pid := 1000 + n div 64, frame_page := n mod 64\<rparr>]) =
          length (map (?F (Suc n)) [0..<512])"
      by simp
  next
    fix i
    assume "i < length ((map (?F n) [0..<512])
             [?f := new_Frame ?f\<lparr>busy := True, frame_pid := 1000 + n div 64, frame_page := n mod 64\<rparr>])"
    then have i: "i < 512" by simp
    show "(map (?F n) [0..<512])
             [?f := new_Frame ?f\<lparr>busy := True, frame_pid := 1000 + n div 64, frame_page := n mod 64\<rparr>] ! i =
          map (?F (Suc n)) [0..<512] ! i"
    proof (cases "i = ?f")
      case True
      with assms show ?thesis by (simp add: new_Frame_def)
    next
      case False
      with assms i show ?thesis by (auto simp: nth_list_update)
    qed
  qed
  show ?thesis
    unfolding MMU_alloc_def
    using ne l b g s t by (simp add: crash_mmu_def Let_def)
qed


text \<open>
  The state in which process \<open>i\<close> calls \<^verbatim>\<open>kernel.syscall\<close> after \<open>n\<close> page faults: the counter of
  the process and the number of accesses have been incremented.
\<close>

definition stepping_process :: "nat \<Rightarrow> nat \<Rightarrow> Process" where
  "stepping_process n i = (crash_process n i)\<lparr>counter := Suc (counter (crash_process n i))\<rparr>"

definition calling_kernel :: "nat \<Rightarrow> nat \<Rightarrow> rng \<Rightarrow> Kernel" where
  "calling_kernel n i rs =
     \<lparr>replacer = KernelItself,
      processes =
        map (\<lambda>i'. (1000 + i', if i' = i then stepping_process n i else crash_process n i'))
          [0..<10],
      mmu = crash_mmu n,
      accessStats = \<lparr>total = Suc n, faults = n, replaced = 0\<rparr>,
      random = rs\<rparr>"

lemma crash_process_counter: "j < 64 \<Longrightarrow> counter (crash_process (64 * i + j) i) = j"
  by (simp add: crash_process_def)

lemma stepping_process_eq:
  "j < 64 \<Longrightarrow> stepping_process (64 * i + j) i = (crash_process (64 * i + j) i)\<lparr>counter := Suc j\<rparr>"
  by (simp add: stepping_process_def crash_process_counter)

lemma crash_process_page:
  "j < 64 \<Longrightarrow> pageTable (crash_process (64 * i + j) i) ! j = new_PageTableEntry"
  by (simp add: crash_process_def del: upt_Suc)

lemma crash_Process_step:
  assumes "j < 64"
  shows "Process_step (crash_process (64 * i + j) i) (step_draws j @- rs) =
           ((AccessMemory (1000 + i) (Some j) True, False),
            (crash_process (64 * i + j) i)\<lparr>counter := Suc j\<rparr>, rs)"
proof -
  have c: "choose_arr [0..<64] (page_draw j ## rs') = (Some j, rs')" for rs'
    using assms by (simp add: choose_arr_def floor_times_page del: upt_Suc)
  have f: "ttl (crash_process (64 * i + j) i) = 1024"
    "workingSetTtl (crash_process (64 * i + j) i) = 128"
    "workingSet (crash_process (64 * i + j) i) = [0..<64]"
    "pid (crash_process (64 * i + j) i) = 1000 + i"
    by (simp_all add: crash_process_def)
  show ?thesis
    using assms
    by (simp add: Process_step_def crash_process_counter f step_draws_def roll_0 c Let_def
        del: upt_Suc)
qed

lemma crash_table_facts:
  "inj_on (\<lambda>i. 1000 + i) (set [0..<10])" "distinct [0..<(10::nat)]"
  by (simp_all add: inj_on_def)

lemma Process_run_crash:
  assumes "i < 10" and "j < 64"
  shows "Process_run (1000 + i)
           ((crash_kernel 10 (64 * i + j) (step_draws j @- rs))
              \<lparr>accessStats := \<lparr>total = Suc (64 * i + j), faults = 64 * i + j, replaced = 0\<rparr>\<rparr>) =
         (case Kernel_syscall (AccessMemory (1000 + i) (Some j) True)
                 (calling_kernel (64 * i + j) i rs) of
            (Inl e, k') \<Rightarrow> (Inl e, k')
          | (Inr u, k') \<Rightarrow> (Inr False, k'))"
proof -
  let ?n = "64 * i + j"
  let ?k0 = "crash_kernel 10 ?n (step_draws j @- rs)"
  let ?this' = "(crash_process ?n i)\<lparr>counter := Suc j\<rparr>"
  from assms(1) have mem: "i \<in> set [0..<10]" by simp
  have live: "map_of (processes ?k0) (1000 + i) = Some (crash_process ?n i)"
    using map_of_table [OF crash_table_facts(1) mem, of "crash_process ?n"]
    by (simp add: crash_kernel_def)
  have "Map_set (1000 + i) ?this' (processes ?k0) =
          map (\<lambda>i'. (1000 + i', if i' = i then ?this' else crash_process ?n i')) [0..<10]"
    using Map_set_table [OF crash_table_facts mem, of ?this' "crash_process ?n"]
    by (simp add: crash_kernel_def)
  then have call: "?k0\<lparr>accessStats := \<lparr>total = Suc ?n, faults = ?n, replaced = 0\<rparr>,
                      processes := Map_set (1000 + i) ?this' (processes ?k0), random := rs\<rparr> =
               calling_kernel ?n i rs"
    using assms(2) by (simp add: calling_kernel_def crash_kernel_def stepping_process_eq)
  have r: "random ?k0 = step_draws j @- rs" by (simp add: crash_kernel_def)
  show ?thesis
    unfolding Process_run_def
    by (simp add: live r crash_Process_step [OF assms(2)] call)
qed


lemma calling_kernel_live:
  assumes "i < 10"
  shows "map_of (processes (calling_kernel n i rs)) (1000 + i) = Some (stepping_process n i)"
proof -
  from assms have mem: "i \<in> set [0..<10]" by simp
  show ?thesis
    using map_of_table [OF crash_table_facts(1) mem,
        of "\<lambda>i'. if i' = i then stepping_process n i else crash_process n i'"]
    by (simp add: calling_kernel_def)
qed

lemma crash_dispatch:
  assumes "i < 10" and "j < 64"
  shows "Kernel_dispatch (AccessMemory (1000 + i) (Some j) True) (calling_kernel (64 * i + j) i rs) =
           (Inl (PageFault (1000 + i) j), calling_kernel (64 * i + j) i rs)"
proof -
  let ?n = "64 * i + j"
  let ?k = "calling_kernel ?n i rs"
  let ?pt = "pageTable (stepping_process ?n i)"
  note live = calling_kernel_live [OF assms(1), of ?n rs]
  have pt: "?pt = pageTable (crash_process ?n i)" by (simp add: stepping_process_def)
  have l: "length ?pt = 64" by (simp add: pt crash_process_def)
  have np: "\<not> presented (?pt ! j)"
    using assms(2) by (simp add: pt crash_process_page new_PageTableEntry_def)
  have a: "MMU_access (1000 + i) ?pt (Some j) True (mmu ?k) =
             (Inl (PageFault (1000 + i) j), ?pt, mmu ?k)"
    using assms(2) l np by (simp add: MMU_access_def Let_def)
  have "Map_modify (1000 + i) (\<lambda>pr. pr\<lparr>pageTable := ?pt\<rparr>) (processes ?k) = processes ?k"
    using live by (rule Map_modify_id) simp
  then have "?k\<lparr>processes := Map_modify (1000 + i) (\<lambda>pr. pr\<lparr>pageTable := ?pt\<rparr>) (processes ?k),
                 mmu := mmu ?k\<rparr> = ?k"
    by simp
  then show ?thesis
    unfolding Kernel_dispatch_def by (simp add: live a)
qed

lemma crash_process_bound:
  assumes "j < 64"
  shows "(crash_process (64 * i + j) i)
           \<lparr>counter := Suc j,
            pageTable :=
              (pageTable (crash_process (64 * i + j) i))
                [j := (pageTable (crash_process (64 * i + j) i) ! j)
                        \<lparr>presented := True, frame := Some (511 - (64 * i + j))\<rparr>]\<rparr> =
         crash_process (Suc (64 * i + j)) i"
proof -
  let ?G = "\<lambda>n pg. if 64 * i + pg < n then resident (511 - (64 * i + pg)) else new_PageTableEntry"
  have "(map (?G (64 * i + j)) [0..<64])
          [j := (map (?G (64 * i + j)) [0..<64] ! j)
                  \<lparr>presented := True, frame := Some (511 - (64 * i + j))\<rparr>] =
        map (?G (Suc (64 * i + j))) [0..<64]"
  proof (rule nth_equalityI)
    show "length ((map (?G (64 * i + j)) [0..<64])
            [j := (map (?G (64 * i + j)) [0..<64] ! j)
                    \<lparr>presented := True, frame := Some (511 - (64 * i + j))\<rparr>]) =
          length (map (?G (Suc (64 * i + j))) [0..<64])"
      by simp
  next
    fix pg
    assume "pg < length ((map (?G (64 * i + j)) [0..<64])
            [j := (map (?G (64 * i + j)) [0..<64] ! j)
                    \<lparr>presented := True, frame := Some (511 - (64 * i + j))\<rparr>])"
    then have pg: "pg < 64" by simp
    show "(map (?G (64 * i + j)) [0..<64])
            [j := (map (?G (64 * i + j)) [0..<64] ! j)
                    \<lparr>presented := True, frame := Some (511 - (64 * i + j))\<rparr>] ! pg =
          map (?G (Suc (64 * i + j))) [0..<64] ! pg"
    proof (cases "pg = j")
      case True
      with assms show ?thesis by (simp add: resident_def del: upt_Suc)
    next
      case False
      with assms pg show ?thesis by (auto simp: nth_list_update simp del: upt_Suc)
    qed
  qed
  then show ?thesis
    using assms by (simp add: crash_process_def del: upt_Suc)
qed

lemma crash_process_other:
  assumes "j < 64" and "i' \<noteq> i"
  shows "crash_process (Suc (64 * i + j)) i' = crash_process (64 * i + j) i'"
proof -
  have "(64 * i' + pg < Suc (64 * i + j)) = (64 * i' + pg < 64 * i + j)" if "pg < 64" for pg
    using that assms by arith
  then have "map (\<lambda>pg. if 64 * i' + pg < Suc (64 * i + j) then resident (511 - (64 * i' + pg))
                        else new_PageTableEntry) [0..<64] =
             map (\<lambda>pg. if 64 * i' + pg < 64 * i + j then resident (511 - (64 * i' + pg))
                        else new_PageTableEntry) [0..<64]"
    by (intro map_cong) simp_all
  moreover have "min 64 (Suc (64 * i + j) - 64 * i') = min 64 (64 * i + j - 64 * i')"
    using assms by arith
  ultimately show ?thesis by (simp add: crash_process_def del: upt_Suc)
qed


lemma crash_fault_handled:
  assumes i: "i < 8" and j: "j < 64"
  shows "Kernel_handlePageFault (1000 + i) j (calling_kernel (64 * i + j) i rs) =
           (Inr (), crash_kernel 10 (Suc (64 * i + j)) rs)"
proof -
  let ?n = "64 * i + j"
  let ?k = "calling_kernel ?n i rs"
  from i have i10: "i < 10" and mem: "i \<in> set [0..<10]" by simp_all
  from i j have n: "?n < 512" by simp
  note live = calling_kernel_live [OF i10, of ?n rs]
  have l: "length (pageTable (stepping_process ?n i)) = 64"
    by (simp add: stepping_process_def crash_process_def)
  from j have "?n div 64 = i" "?n mod 64 = j" by simp_all
  with MMU_alloc_crash [OF n]
  have alloc: "MMU_alloc (1000 + i) j (crash_mmu ?n) = (Inr (int (511 - ?n)), crash_mmu (Suc ?n))"
    by simp
  let ?h = "\<lambda>process. process\<lparr>pageTable :=
              (pageTable process)[j := (pageTable process ! j)\<lparr>presented := True, frame := Some (511 - ?n)\<rparr>]\<rparr>"
  have "Map_modify (1000 + i) ?h (processes ?k) =
          map (\<lambda>i'. (1000 + i',
                      if i' = i then ?h (if i' = i then stepping_process ?n i else crash_process ?n i')
                      else (if i' = i then stepping_process ?n i else crash_process ?n i'))) [0..<10]"
    using Map_modify_table [OF crash_table_facts mem,
        of ?h "\<lambda>i'. if i' = i then stepping_process ?n i else crash_process ?n i'"]
    by (simp add: calling_kernel_def)
  also have "\<dots> = map (\<lambda>i'. (1000 + i', crash_process (Suc ?n) i')) [0..<10]"
  proof (rule map_cong [OF refl])
    fix i'
    assume "i' \<in> set [0..<10]"
    have "?h (stepping_process ?n i) = crash_process (Suc ?n) i"
      using crash_process_bound [OF j, of i] by (simp add: stepping_process_eq [OF j])
    moreover have "crash_process ?n i' = crash_process (Suc ?n) i'" if "i' \<noteq> i"
      using crash_process_other [OF j that] by simp
    ultimately show "(1000 + i',
                      if i' = i then ?h (if i' = i then stepping_process ?n i else crash_process ?n i')
                      else (if i' = i then stepping_process ?n i else crash_process ?n i')) =
                     (1000 + i', crash_process (Suc ?n) i')"
      by simp
  qed
  finally have procs: "Map_modify (1000 + i) ?h (processes ?k) =
                         map (\<lambda>i'. (1000 + i', crash_process (Suc ?n) i')) [0..<10]" .
  have m: "mmu ?k = crash_mmu ?n" by (simp add: calling_kernel_def)
  have rest: "replacer ?k = KernelItself" "random ?k = rs"
    "accessStats ?k = \<lparr>total = Suc ?n, faults = ?n, replaced = 0\<rparr>"
    by (simp_all add: calling_kernel_def)
  have "update_pte (1000 + i, j) (\<lambda>pte. pte\<lparr>presented := True, frame := Some (511 - ?n)\<rparr>)
          (?k\<lparr>accessStats := (accessStats ?k)\<lparr>faults := faults (accessStats ?k) + 1\<rparr>,
               mmu := crash_mmu (Suc ?n)\<rparr>) =
        crash_kernel 10 (Suc ?n) rs"
    unfolding update_pte_def
    by (simp add: procs) (simp add: calling_kernel_def crash_kernel_def)
  then show ?thesis
    unfolding Kernel_handlePageFault_def
    using j by (simp add: live m alloc l bind_pte_def Let_def)
qed

lemma crash_syscall_returns:
  assumes "i < 8" and "j < 64"
  shows "Kernel_syscall (AccessMemory (1000 + i) (Some j) True) (calling_kernel (64 * i + j) i rs) =
           (Inr (), crash_kernel 10 (Suc (64 * i + j)) rs)"
proof -
  from assms(1) have "i < 10" by simp
  from crash_dispatch [OF this assms(2), of rs] crash_fault_handled [OF assms, of rs]
  show ?thesis
    by (simp add: Kernel_syscall_def Kernel_handleException_def)
qed

text \<open>The state in which the program ends: the handler has counted the fault and the replacement.\<close>

definition crashed_kernel :: Kernel where
  "crashed_kernel =
     (calling_kernel 512 8 (sconst 0))\<lparr>accessStats := \<lparr>total = 513, faults = 513, replaced = 1\<rparr>\<rparr>"

lemma crash_fault_throws:
  "Kernel_handlePageFault 1008 0 (calling_kernel 512 8 (sconst 0)) = (Inl TypeError, crashed_kernel)"
proof -
  let ?k = "calling_kernel 512 8 (sconst 0)"
  have live: "map_of (processes ?k) 1008 = Some (stepping_process 512 8)"
    using calling_kernel_live [of 8 512 "sconst 0"] by simp
  have alloc: "MMU_alloc 1008 0 (crash_mmu 512) = (Inr (- 1), crash_mmu 512)"
    by (simp add: MMU_alloc_def crash_mmu_def)
  have m: "mmu ?k = crash_mmu 512" by (simp add: calling_kernel_def)
  have r: "replacer ?k = KernelItself" by (simp add: calling_kernel_def)
  have "?k\<lparr>mmu := crash_mmu 512,
            accessStats := (accessStats ?k)\<lparr>faults := Suc (faults (accessStats ?k)),
                                            replaced := Suc (replaced (accessStats ?k))\<rparr>\<rparr> =
        crashed_kernel"
    by (simp add: crashed_kernel_def calling_kernel_def)
  then show ?thesis
    unfolding Kernel_handlePageFault_def
    by (simp add: live m alloc r Kernel_replace_def Let_def)
qed

lemma crash_syscall_throws:
  "Kernel_syscall (AccessMemory 1008 (Some 0) True) (calling_kernel 512 8 (sconst 0)) =
     (Inl TypeError, crashed_kernel)"
  using crash_dispatch [of 8 0 "sconst 0"] crash_fault_throws
  by (simp add: Kernel_syscall_def Kernel_handleException_def)


lemma Process_run_crash_step:
  assumes "i < 8" and "j < 64"
  shows "Process_run (1000 + i)
           ((crash_kernel 10 (64 * i + j) (step_draws j @- rs))
              \<lparr>accessStats := \<lparr>total = Suc (64 * i + j), faults = 64 * i + j, replaced = 0\<rparr>\<rparr>) =
         (Inr False, crash_kernel 10 (Suc (64 * i + j)) rs)"
proof -
  from assms(1) have "i < 10" by simp
  from Process_run_crash [OF this assms(2), of rs] crash_syscall_returns [OF assms, of rs]
  show ?thesis by simp
qed

lemma crash_kernel_count:
  "(crash_kernel m n rs)\<lparr>accessStats := (accessStats (crash_kernel m n rs))
                                          \<lparr>total := total (accessStats (crash_kernel m n rs)) + 1\<rparr>\<rparr> =
   (crash_kernel m n rs)\<lparr>accessStats := \<lparr>total = Suc n, faults = n, replaced = 0\<rparr>\<rparr>"
  by (simp add: crash_kernel_def)

lemma run_steps_crash:
  "i < 8 \<Longrightarrow> j + m = 64 \<Longrightarrow>
   run_steps m (1000 + i)
     (crash_kernel 10 (64 * i + j) (concat (map step_draws [j..<j + m]) @- rs)) =
     (Inr (), crash_kernel 10 (64 * i + j + m) rs)"
proof (induction m arbitrary: j)
  case 0
  then show ?case by simp
next
  case (Suc m)
  then have j: "j < 64" by simp
  define rest where "rest = concat (map step_draws [Suc j..<Suc j + m]) @- rs"
  have "[j..<j + Suc m] = j # [Suc j..<Suc j + m]"
    by (subst upt_rec) simp
  then have src: "concat (map step_draws [j..<j + Suc m]) @- rs = step_draws j @- rest"
    by (simp add: rest_def)
  from Suc.prems have "run_steps m (1000 + i) (crash_kernel 10 (64 * i + Suc j) rest) =
                         (Inr (), crash_kernel 10 (64 * i + Suc j + m) rs)"
    unfolding rest_def by (intro Suc.IH) simp_all
  then have ih: "run_steps m (1000 + i) (crash_kernel 10 (Suc (64 * i + j)) rest) =
                   (Inr (), crash_kernel 10 (64 * i + j + Suc m) rs)"
    by simp
  have "run_steps (Suc m) (1000 + i) (crash_kernel 10 (64 * i + j) (step_draws j @- rest)) =
          (Inr (), crash_kernel 10 (64 * i + j + Suc m) rs)"
    by (simp only: run_steps.simps crash_kernel_count Process_run_crash_step [OF Suc.prems(1) j]
        prod.case sum.case if_False ih)
  then show ?case by (simp only: src)
qed

lemma run_processes_crash:
  "i + m = 8 \<Longrightarrow>
   run_processes (map (\<lambda>i. 1000 + i) [i..<i + m])
     (crash_kernel 10 (64 * i) (concat (replicate m turn_draws) @- rs)) =
     (Inr (), crash_kernel 10 512 rs)"
proof (induction m arbitrary: i)
  case 0
  then show ?case by simp
next
  case (Suc m)
  then have i: "i < 8" by simp
  define rest where "rest = concat (replicate m turn_draws) @- rs"
  define steps where "steps = concat (map step_draws [0..<0 + 64]) @- rest"
  define ps where "ps = map (\<lambda>i. 1000 + i) [Suc i..<Suc i + m]"
  have "[i..<i + Suc m] = i # [Suc i..<Suc i + m]"
    by (subst upt_rec) simp
  then have l: "map (\<lambda>i. 1000 + i) [i..<i + Suc m] = (1000 + i) # ps"
    by (simp add: ps_def)
  have src: "concat (replicate (Suc m) turn_draws) @- rs = 0 ## steps"
    by (simp add: rest_def steps_def turn_draws_def del: upt_Suc)
  have k: "(crash_kernel 10 (64 * i) (0 ## steps))\<lparr>random := steps\<rparr> = crash_kernel 10 (64 * i + 0) steps"
    by (simp add: crash_kernel_def)
  have st: "run_steps 64 (1000 + i) (crash_kernel 10 (64 * i + 0) steps) =
              (Inr (), crash_kernel 10 (64 * i + 0 + 64) rest)"
    unfolding steps_def using i by (intro run_steps_crash) simp_all
  have r: "random (crash_kernel 10 (64 * i) (0 ## steps)) = 0 ## steps"
    by (simp add: crash_kernel_def)
  from Suc.prems
  have "run_processes ps (crash_kernel 10 (64 * Suc i) rest) = (Inr (), crash_kernel 10 512 rs)"
    unfolding rest_def ps_def by (intro Suc.IH) simp
  then have ih: "run_processes ps (crash_kernel 10 (64 * i + 0 + 64) rest) =
                   (Inr (), crash_kernel 10 512 rs)"
    by (simp add: add.commute)
  have "run_processes ((1000 + i) # ps) (crash_kernel 10 (64 * i) (0 ## steps)) =
          (Inr (), crash_kernel 10 512 rs)"
    by (simp only: run_processes.simps r rand_Cons rand_num_consts prod.case sum.case k st ih)
  then show ?case by (simp only: src l)
qed

lemma run_processes_append:
  "run_processes (ps @ qs) k =
     (case run_processes ps k of
        (Inl e, k') \<Rightarrow> (Inl e, k')
      | (Inr u, k') \<Rightarrow> run_processes qs k')"
  by (induction ps arbitrary: k) (auto simp: split_beta split: sum.splits)

lemma sconst_0: "sconst (0 :: draw) = step_draws 0 @- sconst 0" "sconst (0 :: draw) = 0 ## sconst 0"
proof -
  show a: "sconst (0 :: draw) = 0 ## sconst 0" by (rule stream.expand) simp
  have "step_draws 0 @- sconst 0 = 0 ## 0 ## 0 ## sconst 0"
    by (simp add: step_draws_def page_draw_def)
  also have "\<dots> = sconst 0" using a by simp
  finally show "sconst (0 :: draw) = step_draws 0 @- sconst 0" by simp
qed

lemma Process_run_crash_throws:
  "Process_run 1008
     ((crash_kernel 10 512 (sconst 0))\<lparr>accessStats := \<lparr>total = 513, faults = 512, replaced = 0\<rparr>\<rparr>) =
   (Inl TypeError, crashed_kernel)"
proof -
  from Process_run_crash [of 8 0 "sconst 0"] crash_syscall_throws
  have "Process_run 1008
          ((crash_kernel 10 512 (step_draws 0 @- sconst 0))
             \<lparr>accessStats := \<lparr>total = 513, faults = 512, replaced = 0\<rparr>\<rparr>) =
        (Inl TypeError, crashed_kernel)"
    by simp
  then show ?thesis by (simp only: sconst_0(1) [symmetric])
qed

lemma first_tick_crash: "Kernel_tick first_kernel = Some (Inl TypeError, crashed_kernel)"
proof -
  let ?rs = "concat (replicate 8 turn_draws) @- sconst 0"
  let ?full = "crash_kernel 10 512 (sconst 0)"
  have "[0..<10] = [0..<0 + 8] @ [8, 9::nat]"
    using upt_add_eq_append [of 0 8 2] by (simp add: upt_rec [of 8] upt_rec [of 9])
  then have "map fst (processes first_kernel) = map (\<lambda>i. 1000 + i) ([0..<0 + 8] @ [8, 9])"
    by (simp add: first_kernel_def crash_kernel_def comp_def del: upt_Suc)
  then have ps: "map fst (processes first_kernel) = map (\<lambda>i. 1000 + i) [0..<0 + 8] @ [1008, 1009]"
    by (simp del: upt_Suc)
  have 1: "run_processes (map (\<lambda>i. 1000 + i) [0..<0 + 8]) first_kernel = (Inr (), ?full)"
    unfolding first_kernel_def
    using run_processes_crash [of 0 8 "sconst 0"] by (simp del: upt_Suc)
  have c: "?full\<lparr>accessStats := (accessStats ?full)\<lparr>total := total (accessStats ?full) + 1\<rparr>\<rparr> =
           ?full\<lparr>accessStats := \<lparr>total = 513, faults = 512, replaced = 0\<rparr>\<rparr>"
    by (simp add: crash_kernel_def)
  have r: "random ?full = 0 ## sconst 0" "?full\<lparr>random := sconst 0\<rparr> = ?full"
    by (simp_all add: crash_kernel_def flip: sconst_0(2))
  have "run_steps (Suc 63) 1008 ?full = (Inl TypeError, crashed_kernel)"
    by (simp only: run_steps.simps c Process_run_crash_throws prod.case sum.case)
  moreover have "(64::nat) = Suc 63" by simp
  ultimately have s: "run_steps 64 1008 ?full = (Inl TypeError, crashed_kernel)"
    by (simp only:)
  have 2: "run_processes [1008, 1009] ?full = (Inl TypeError, crashed_kernel)"
    by (simp only: run_processes.simps r rand_Cons rand_num_consts prod.case sum.case s)
  have "run_processes (map fst (processes first_kernel)) first_kernel = (Inl TypeError, crashed_kernel)"
    unfolding ps run_processes_append by (simp only: 1 2 prod.case sum.case)
  then show ?thesis by (simp add: Kernel_tick_def)
qed


lemma first_kernel_reachable: "reachable ''constructor'' first_kernel"
  using new_Kernel_crash by (rule reachable.constructed)

lemma crash_kernel_live: "i < 10 \<Longrightarrow> map_of (processes (crash_kernel 10 n rs)) (1000 + i) = Some (crash_process n i)"
proof -
  assume "i < 10"
  then have mem: "i \<in> set [0..<10]" by simp
  show ?thesis
    using map_of_table [OF crash_table_facts(1) mem, of "crash_process n"]
    by (simp add: crash_kernel_def)
qed

text \<open>
  Claim C10 says that \<^verbatim>\<open>kernel.syscall\<close> never propagates an exception. The program
  started with the algorithm name \<^verbatim>\<open>constructor\<close> and the draws of \<open>crash_source\<close> builds a
  kernel of 512 frames and ten processes of 64 pages, whose replacer is the kernel itself.
  In the first iteration of the main loop the first eight processes touch their 64 pages
  each, which takes all frames. The first system call of the ninth process,
  \<^verbatim>\<open>AccessMemory(1008, 0, true)\<close>, is made in the state \<open>calling_kernel 512 8\<close> (lemma
  \<open>Process_run_crash\<close>). Its dispatch throws a page fault, which is caught; the handler,
  running in the \<^verbatim>\<open>catch\<close> clause, finds no free frame and calls \<^verbatim>\<open>replace\<close> on the kernel,
  and the TypeError of that call leaves \<^verbatim>\<open>syscall\<close>, \<^verbatim>\<open>run\<close> and the main loop.
\<close>

theorem constructor_syscall_throws:
  "new_Kernel ''constructor'' crash_source = Some (Inr first_kernel) \<and>
   Kernel_tick first_kernel = Some (Inl TypeError, crashed_kernel) \<and>
   Kernel_dispatch (AccessMemory 1008 (Some 0) True) (calling_kernel 512 8 (sconst 0)) =
     (Inl (PageFault 1008 0), calling_kernel 512 8 (sconst 0)) \<and>
   Kernel_handlePageFault 1008 0 (calling_kernel 512 8 (sconst 0)) =
     (Inl TypeError, crashed_kernel) \<and>
   Kernel_syscall (AccessMemory 1008 (Some 0) True) (calling_kernel 512 8 (sconst 0)) =
     (Inl TypeError, crashed_kernel)"
  using new_Kernel_crash first_tick_crash crash_dispatch [of 8 0 "sconst 0"] crash_fault_throws
    crash_syscall_throws
  by simp

text \<open>
  Claim C6 says that the first \<open>ttl\<close> calls of \<^verbatim>\<open>run\<close> on a process return false. In the same
  run, process 1008 is created with \<open>ttl = 1024\<close>; when the first eight processes have had
  their turns it has not run yet, and the first call of \<^verbatim>\<open>run\<close> on it returns neither false nor
  true: it throws the TypeError, and the program ends.
\<close>

theorem constructor_run_throws:
  "new_Kernel ''constructor'' crash_source = Some (Inr first_kernel) \<and>
   run_processes (map (\<lambda>i. 1000 + i) [0..<8]) first_kernel =
     (Inr (), crash_kernel 10 512 (sconst 0)) \<and>
   map_of (processes (crash_kernel 10 512 (sconst 0))) 1008 = Some (crash_process 512 8) \<and>
   ttl (crash_process 512 8) = 1024 \<and> counter (crash_process 512 8) = 0 \<and>
   Process_run 1008
     ((crash_kernel 10 512 (sconst 0))\<lparr>accessStats := \<lparr>total = 513, faults = 512, replaced = 0\<rparr>\<rparr>) =
     (Inl TypeError, crashed_kernel) \<and>
   Kernel_tick first_kernel = Some (Inl TypeError, crashed_kernel)"
proof -
  have "run_processes (map (\<lambda>i. 1000 + i) [0..<8]) first_kernel =
          (Inr (), crash_kernel 10 512 (sconst 0))"
    unfolding first_kernel_def
    using run_processes_crash [of 0 8 "sconst 0"] by (simp del: upt_Suc)
  moreover have "map_of (processes (crash_kernel 10 512 (sconst 0))) 1008 = Some (crash_process 512 8)"
    using crash_kernel_live [of 8 512 "sconst 0"] by simp
  moreover have "ttl (crash_process 512 8) = 1024" "counter (crash_process 512 8) = 0"
    by (simp_all add: crash_process_def)
  ultimately show ?thesis
    using new_Kernel_crash Process_run_crash_throws first_tick_crash by simp
qed

end
